theory Spec2Isabelle
  imports Complex_Main "HOL-Library.Sublist"
begin

section \<open>Errors\<close>

text \<open>
  The exceptions the modelled code can raise: a missing \<open>"books"\<close> key of the stored
  progress object (\<open>progress_data["books"]\<close> in \<open>get_book_progress\<close>); a true division
  by zero or with a quotient too large for a float; the conversion to a float of an int
  that is too large; \<open>int()\<close> of an infinity (OverflowError) or of a NaN (ValueError).
\<close>

datatype error = KeyError | ZeroDivisionError | OverflowError | ValueError

section \<open>Python floats\<close>

text \<open>
  A Python float is an IEEE 754 binary64 number. It is modelled by its value: a finite
  float by the rational number it denotes, then the two infinities and NaN. The sign of
  a zero is not kept; \<open>0.0\<close> and \<open>-0.0\<close> compare equal and \<open>int()\<close> maps both to 0.
\<close>

datatype pyfloat = Fin rat | PInf | NInf | NaN

text \<open>
  The exponent of a non-negative \<open>a\<close>: the largest \<open>e\<close> from -1022 to 1023 with
  \<open>2\<^sup>e \<le> a\<close>, and -1022 when there is none (the subnormal range). \<open>expo a 2045\<close> searches
  downwards from 1023.
\<close>

fun expo :: "rat \<Rightarrow> nat \<Rightarrow> int" where
  "expo a 0 = - 1022"
| "expo a (Suc n) =
     (if 2 powi (int (Suc n) - 1022) \<le> a then int (Suc n) - 1022 else expo a n)"

text \<open>Rounding to the nearest integer, a tie to the even one.\<close>

definition round_half_even :: "rat \<Rightarrow> int" where
  "round_half_even x =
     (let f = \<lfloor>x\<rfloor>; d = x - of_int f
      in if d < 1 / 2 then f else if 1 / 2 < d then f + 1 else if even f then f else f + 1)"

text \<open>
  Rounding of an exact value to binary64, round-half-to-even on a significand of 53 bits
  (fewer in the subnormal range): \<open>None\<close> when the rounded magnitude reaches \<open>2\<^sup>1\<^sup>0\<^sup>2\<^sup>4\<close>.
\<close>

definition round_double :: "rat \<Rightarrow> rat option" where
  "round_double q =
     (let a = \<bar>q\<bar>;
          e = expo a 2045;
          n = round_half_even (a * 2 powi (52 - e));
          r = of_int n * 2 powi (e - 52)
      in if 2 ^ 1024 \<le> r then None else Some (if q < 0 then - r else r))"

text \<open>
  \<open>a / b\<close> on ints: the correctly rounded quotient; ZeroDivisionError for a zero
  divisor, OverflowError when the rounded quotient is too large for a float.
\<close>

definition true_div :: "int \<Rightarrow> int \<Rightarrow> error + pyfloat" where
  "true_div a b =
     (if b = 0 then Inl ZeroDivisionError
      else case round_double (of_int a / of_int b) of
             None \<Rightarrow> Inl OverflowError
           | Some r \<Rightarrow> Inr (Fin r))"

text \<open>
  \<open>x * y\<close> on floats: the rounded product; an overflow gives an infinity and raises
  nothing.
\<close>

fun float_mul :: "pyfloat \<Rightarrow> pyfloat \<Rightarrow> pyfloat" where
  "float_mul NaN y = NaN"
| "float_mul (Fin x) NaN = NaN"
| "float_mul PInf NaN = NaN"
| "float_mul NInf NaN = NaN"
| "float_mul (Fin x) (Fin y) =
     (case round_double (x * y) of
        Some r \<Rightarrow> Fin r
      | None \<Rightarrow> if 0 < x * y then PInf else NInf)"
| "float_mul (Fin x) PInf = (if x = 0 then NaN else if 0 < x then PInf else NInf)"
| "float_mul (Fin x) NInf = (if x = 0 then NaN else if 0 < x then NInf else PInf)"
| "float_mul PInf (Fin y) = (if y = 0 then NaN else if 0 < y then PInf else NInf)"
| "float_mul NInf (Fin y) = (if y = 0 then NaN else if 0 < y then NInf else PInf)"
| "float_mul PInf PInf = PInf"
| "float_mul PInf NInf = NInf"
| "float_mul NInf PInf = NInf"
| "float_mul NInf NInf = PInf"

section \<open>Progress tracking (models/core.py, services/progress.py)\<close>

record BookProgress =
  current_chunk :: int
  total_chunks :: int
  reading_days :: int
  completed :: bool

text \<open>
  \<open>progress_percentage\<close>: \<open>0.0\<close> for a zero total, else
  \<open>(self.current_chunk / self.total_chunks) * 100\<close>, a true division of ints followed by
  a float multiplication by \<open>100.0\<close>.
\<close>

definition progress_percentage :: "BookProgress \<Rightarrow> error + pyfloat" where
  "progress_percentage bp =
     (if total_chunks bp = 0 then Inr (Fin 0)
      else case true_div (current_chunk bp) (total_chunks bp) of
             Inl e \<Rightarrow> Inl e
           | Inr x \<Rightarrow> Inr (float_mul x (Fin 100)))"

definition mark_chunk_read :: "BookProgress \<Rightarrow> BookProgress" where
  "mark_chunk_read bp =
     (if current_chunk bp < total_chunks bp then
        (let bp1 = bp\<lparr>current_chunk := current_chunk bp + 1\<rparr>;
             bp2 = bp1\<lparr>reading_days := reading_days bp1 + 1\<rparr>
         in if current_chunk bp2 \<ge> total_chunks bp2 then bp2\<lparr>completed := True\<rparr> else bp2)
      else bp)"

definition is_finished :: "BookProgress \<Rightarrow> bool" where
  "is_finished bp = (completed bp \<or> current_chunk bp \<ge> total_chunks bp)"

text \<open>
  One book's dictionary in \<open>progress.json\<close>: each of the four keys may be absent
  (\<open>set_book_total_chunks\<close> on an unseen book stores \<open>total_chunks\<close> only).
\<close>

record book_entry =
  e_current_chunk :: "int option"
  e_total_chunks :: "int option"
  e_reading_days :: "int option"
  e_completed :: "bool option"

definition empty_entry :: book_entry where
  "empty_entry = \<lparr>e_current_chunk = None, e_total_chunks = None,
                  e_reading_days = None, e_completed = None\<rparr>"

text \<open>
  The progress file: absent, or a JSON object whose \<open>"books"\<close> key is absent (\<open>None\<close>)
  or maps book file names to their dictionaries. File names are only compared.
\<close>

datatype progress_file = NoFile | File "(string \<rightharpoonup> book_entry) option"

definition load_progress :: "progress_file \<Rightarrow> (string \<rightharpoonup> book_entry) option" where
  "load_progress f = (case f of NoFile \<Rightarrow> Some Map.empty | File d \<Rightarrow> d)"

definition get_book_progress :: "progress_file \<Rightarrow> string \<Rightarrow> error + BookProgress" where
  "get_book_progress f book_filename =
     (case load_progress f of
        None \<Rightarrow> Inl KeyError
      | Some books \<Rightarrow>
          (let book_data = (case books book_filename of None \<Rightarrow> empty_entry | Some d \<Rightarrow> d)
           in Inr \<lparr>current_chunk = (case e_current_chunk book_data of None \<Rightarrow> 0 | Some v \<Rightarrow> v),
                   total_chunks = (case e_total_chunks book_data of None \<Rightarrow> 0 | Some v \<Rightarrow> v),
                   reading_days = (case e_reading_days book_data of None \<Rightarrow> 0 | Some v \<Rightarrow> v),
                   completed = (case e_completed book_data of None \<Rightarrow> False | Some v \<Rightarrow> v)\<rparr>))"

text \<open>
  \<open>update_book_progress\<close> loads the file, adds the missing \<open>"books"\<close> key and the
  missing book to its own copy, reads the book again from the file (through
  \<open>get_book_progress\<close>, which raises when the file has no \<open>"books"\<close> key), sets the
  total, marks one chunk read and saves. It returns the new file and the snapshot.
\<close>

definition update_book_progress ::
  "progress_file \<Rightarrow> string \<Rightarrow> int \<Rightarrow> error + (progress_file \<times> BookProgress)" where
  "update_book_progress f book_filename new_total =
     (let books0 = (case load_progress f of None \<Rightarrow> Map.empty | Some bs \<Rightarrow> bs);
          books1 = (if books0 book_filename = None then books0(book_filename \<mapsto> empty_entry)
                    else books0)
      in case get_book_progress f book_filename of
           Inl e \<Rightarrow> Inl e
         | Inr book_progress \<Rightarrow>
             (let bp1 = book_progress\<lparr>total_chunks := new_total\<rparr>;
                  bp2 = mark_chunk_read bp1;
                  books2 = books1(book_filename \<mapsto>
                             \<lparr>e_current_chunk = Some (current_chunk bp2),
                              e_total_chunks = Some (total_chunks bp2),
                              e_reading_days = Some (reading_days bp2),
                              e_completed = Some (completed bp2)\<rparr>)
              in Inr (File (Some books2), bp2)))"

definition set_book_total_chunks :: "progress_file \<Rightarrow> string \<Rightarrow> int \<Rightarrow> progress_file" where
  "set_book_total_chunks f book_filename new_total =
     (let books0 = (case load_progress f of None \<Rightarrow> Map.empty | Some bs \<Rightarrow> bs);
          books1 = (if books0 book_filename = None then books0(book_filename \<mapsto> empty_entry)
                    else books0);
          d = (case books1 book_filename of None \<Rightarrow> empty_entry | Some d \<Rightarrow> d)
      in File (Some (books1(book_filename \<mapsto> d\<lparr>e_total_chunks := Some new_total\<rparr>))))"

text \<open>Repeated \<open>update_book_progress\<close> calls on one book; an exception ends the run.\<close>

fun advance_trace :: "progress_file \<Rightarrow> string \<Rightarrow> int list \<Rightarrow> error + BookProgress list" where
  "advance_trace f b [] = Inr []"
| "advance_trace f b (n # ns) =
     (case update_book_progress f b n of
        Inl e \<Rightarrow> Inl e
      | Inr (f', bp) \<Rightarrow>
          (case advance_trace f' b ns of Inl e \<Rightarrow> Inl e | Inr bps \<Rightarrow> Inr (bp # bps)))"

text \<open>The two tracker operations that write a book's progress, and runs of them.\<close>

datatype tracker_op = Advance int | SetTotalUnits int

fun apply_op :: "progress_file \<Rightarrow> string \<Rightarrow> tracker_op \<Rightarrow> error + progress_file" where
  "apply_op f b (Advance n) =
     (case update_book_progress f b n of Inl e \<Rightarrow> Inl e | Inr (f', bp) \<Rightarrow> Inr f')"
| "apply_op f b (SetTotalUnits n) = Inr (set_book_total_chunks f b n)"

fun run_ops :: "progress_file \<Rightarrow> string \<Rightarrow> tracker_op list \<Rightarrow> error + progress_file" where
  "run_ops f b [] = Inr f"
| "run_ops f b (x # xs) =
     (case apply_op f b x of Inl e \<Rightarrow> Inl e | Inr f' \<Rightarrow> run_ops f' b xs)"

definition state_after :: "progress_file \<Rightarrow> string \<Rightarrow> tracker_op list \<Rightarrow> error + BookProgress" where
  "state_after f b xs =
     (case run_ops f b xs of Inl e \<Rightarrow> Inl e | Inr f' \<Rightarrow> get_book_progress f' b)"

definition fresh_progress :: BookProgress where
  "fresh_progress = \<lparr>current_chunk = 0, total_chunks = 0, reading_days = 0, completed = False\<rparr>"

text \<open>The record invariant of the data model: completed iff the last unit is reached.\<close>

definition completed_inv :: "BookProgress \<Rightarrow> bool" where
  "completed_inv bp =
     (total_chunks bp > 0 \<longrightarrow> (completed bp \<longleftrightarrow> current_chunk bp \<ge> total_chunks bp))"

text \<open>
  The record read back after each operation of a run; an exception ends the run.
\<close>

fun op_trace :: "progress_file \<Rightarrow> string \<Rightarrow> tracker_op list \<Rightarrow> error + BookProgress list" where
  "op_trace f b [] = Inr []"
| "op_trace f b (x # xs) =
     (case apply_op f b x of
        Inl e \<Rightarrow> Inl e
      | Inr f' \<Rightarrow>
          (case get_book_progress f' b of
             Inl e \<Rightarrow> Inl e
           | Inr bp \<Rightarrow>
               (case op_trace f' b xs of Inl e \<Rightarrow> Inl e | Inr bps \<Rightarrow> Inr (bp # bps))))"

text \<open>
  The operations that leave a record violating the invariant, in terms of the record
  stored before: a positive total that is raised above the units read on a completed
  book (for an advance, which still reads one unit: above the units read plus one), or
  that is at most the units read on a book not completed.
\<close>

fun breaks_inv :: "BookProgress \<Rightarrow> tracker_op \<Rightarrow> bool" where
  "breaks_inv bp (SetTotalUnits n) =
     (0 < n \<and> ((completed bp \<and> current_chunk bp < n) \<or> (\<not> completed bp \<and> n \<le> current_chunk bp)))"
| "breaks_inv bp (Advance n) =
     (0 < n \<and> ((completed bp \<and> current_chunk bp + 1 < n) \<or> (\<not> completed bp \<and> n \<le> current_chunk bp)))"

section \<open>Strings (utils.py)\<close>

text \<open>
  A Python \<open>str\<close> is a sequence of Unicode code points; a code point is modelled by its
  number. \<open>py\<close> writes an ASCII literal.
\<close>

type_synonym ustr = "nat list"

definition py :: "string \<Rightarrow> ustr" where
  "py s = map of_char s"

text \<open>
  The characters \<open>str.strip()\<close> and \<open>str.split()\<close> treat as whitespace: tab to carriage
  return, the separators 0x1C to 0x1F, space, NEL, no-break space and the Unicode spaces.
\<close>

definition is_space :: "nat \<Rightarrow> bool" where
  "is_space c = ((9 \<le> c \<and> c \<le> 13) \<or> (28 \<le> c \<and> c \<le> 32) \<or> c = 133 \<or> c = 160
                 \<or> c = 5760 \<or> (8192 \<le> c \<and> c \<le> 8202) \<or> c = 8232 \<or> c = 8233
                 \<or> c = 8239 \<or> c = 8287 \<or> c = 12288)"

text \<open>\<open>s.strip()\<close>: leading and trailing whitespace removed.\<close>

definition strip :: "ustr \<Rightarrow> ustr" where
  "strip s = rev (dropWhile is_space (rev (dropWhile is_space s)))"

text \<open>\<open>s.find(sep)\<close>: the index of the leftmost occurrence, \<open>None\<close> for Python's -1.\<close>

fun find_str :: "'a list \<Rightarrow> 'a list \<Rightarrow> nat option" where
  "find_str sep [] = (if sep = [] then Some 0 else None)"
| "find_str sep (c # cs) =
     (if prefix sep (c # cs) then Some 0 else map_option Suc (find_str sep cs))"

text \<open>
  \<open>s.split(sep)\<close>: cut at the leftmost occurrence, go on after it. Python raises
  ValueError for an empty separator; the source passes the literals \<open>'\n'\<close> and
  \<open>'\n\n'\<close> only, so that branch is never taken.
\<close>

function split_str :: "'a list \<Rightarrow> 'a list \<Rightarrow> 'a list list" where
  "split_str sep s =
     (if sep = [] then [s]
      else case find_str sep s of
             None \<Rightarrow> [s]
           | Some i \<Rightarrow> take i s # split_str sep (drop (i + length sep) s))"
  by pat_completeness auto
termination
proof (relation "measure (\<lambda>(sep, s). length s)")
  show "wf (measure (\<lambda>(sep, s). length s))" by simp
next
  fix sep s :: "'a list" and i
  assume ne: "sep \<noteq> []" and f: "find_str sep s = Some i"
  have bound: "find_str sep t = Some j \<Longrightarrow> j + length sep \<le> length t" for t j
  proof (induction t arbitrary: j)
    case Nil
    then show ?case by (simp split: if_splits)
  next
    case (Cons c cs)
    show ?case
    proof (cases "prefix sep (c # cs)")
      case True
      with Cons.prems have "j = 0" by simp
      with prefix_length_le[OF True] show ?thesis by simp
    next
      case False
      with Cons.prems obtain k where "find_str sep cs = Some k" "j = Suc k" by auto
      with Cons.IH[of k] show ?thesis by simp
    qed
  qed
  have a: "i + length sep \<le> length s" using bound[OF f] .
  have b: "0 < length sep" using ne by simp
  have "length s - (i + length sep) < length s" using a b by arith
  then show "((sep, drop (i + length sep) s), (sep, s)) \<in> measure (\<lambda>(sep, s). length s)"
    by simp
qed

declare split_str.simps [simp del]

text \<open>
  \<open>s.split()\<close>: the maximal runs of non-whitespace characters. \<open>cur\<close> is the word
  being read.
\<close>

fun split_ws_from :: "ustr \<Rightarrow> ustr \<Rightarrow> ustr list" where
  "split_ws_from cur [] = (if cur = [] then [] else [cur])"
| "split_ws_from cur (c # cs) =
     (if is_space c then (if cur = [] then split_ws_from [] cs else cur # split_ws_from [] cs)
      else split_ws_from (cur @ [c]) cs)"

definition split_ws :: "ustr \<Rightarrow> ustr list" where
  "split_ws s = split_ws_from [] s"

text \<open>\<open>sep.join(xs)\<close>.\<close>

fun join :: "'a list \<Rightarrow> 'a list list \<Rightarrow> 'a list" where
  "join sep [] = []"
| "join sep [x] = x"
| "join sep (x # y # ys) = x @ sep @ join sep (y # ys)"

definition count_words :: "ustr \<Rightarrow> int" where
  "count_words text =
     (if strip text = [] then 0
      else int (length (filter (\<lambda>word. strip word \<noteq> []) (split_ws text))))"

text \<open>
  \<open>re.sub\<close> for a pattern \<open>C{k,}\<close> over a character class \<open>C\<close> (here \<open>P\<close>), with
  \<open>k \<ge> 1\<close>: a maximal run of at least \<open>k\<close> class characters is replaced by \<open>rep\<close>; a
  shorter run matches nowhere and is copied. \<open>[ \t]+\<close> is the case \<open>k = 1\<close>.
\<close>

function re_sub_run :: "(nat \<Rightarrow> bool) \<Rightarrow> nat \<Rightarrow> ustr \<Rightarrow> ustr \<Rightarrow> ustr" where
  "re_sub_run P k rep [] = []"
| "re_sub_run P k rep (c # cs) =
     (if P c \<and> k \<le> length (takeWhile P (c # cs))
      then rep @ re_sub_run P k rep (dropWhile P cs)
      else c # re_sub_run P k rep cs)"
  by pat_completeness auto
termination
  by (relation "measure (\<lambda>(P, k, rep, s). length s)")
     (auto simp: length_dropWhile_le less_Suc_eq_le)

text \<open>\<open>re.sub\<close> for a character class without quantifier: each match is replaced.\<close>

definition re_sub_char :: "(nat \<Rightarrow> bool) \<Rightarrow> ustr \<Rightarrow> ustr \<Rightarrow> ustr" where
  "re_sub_char P rep s = concat (map (\<lambda>c. if P c then rep else [c]) s)"

text \<open>
  \<open>clean_text\<close>. The two quote classes of the source hold the ASCII double quote (34)
  and the ASCII apostrophe (39) only, each replaced by itself.
\<close>

definition clean_text :: "ustr \<Rightarrow> ustr" where
  "clean_text text =
     (if text = [] then []
      else
        (let lines = split_str [10] text;
             cleaned_lines =
               map (\<lambda>line. re_sub_run (\<lambda>c. c = 32 \<or> c = 9) 1 [32] (strip line)) lines;
             text1 = join [10] cleaned_lines;
             text2 = re_sub_char (\<lambda>c. c = 34) [34] text1;
             text3 = re_sub_char (\<lambda>c. c = 39) [39] text2;
             text4 = re_sub_run (\<lambda>c. c = 10) 3 [10, 10] text3
         in strip text4))"

section \<open>Chunking (processors/chunker.py)\<close>

text \<open>
  A chunk; \<open>estimated_reading_time\<close> is a float.
\<close>

record BookChunk =
  index :: int
  content :: ustr
  word_count :: int
  estimated_reading_time :: pyfloat

text \<open>
  \<open>_create_chunk\<close>: \<open>word_count / self.words_per_minute\<close> is a true division of ints,
  which raises for a zero \<open>words_per_minute\<close> and for a quotient too large for a float.
\<close>

definition create_chunk :: "int \<Rightarrow> int \<Rightarrow> ustr \<Rightarrow> error + BookChunk" where
  "create_chunk words_per_minute idx cont =
     (let wc = count_words cont
      in case true_div wc words_per_minute of
           Inl e \<Rightarrow> Inl e
         | Inr reading_time \<Rightarrow>
             Inr \<lparr>index = idx, content = cont, word_count = wc,
                  estimated_reading_time = reading_time\<rparr>)"

text \<open>
  The \<open>for paragraph in paragraphs\<close> loop of \<open>chunk_text\<close> followed by the final
  chunk; the state is \<open>chunks\<close>, \<open>current_chunk_paragraphs\<close> and
  \<open>current_word_count\<close>.
\<close>

fun chunk_loop ::
  "int \<Rightarrow> int \<Rightarrow> ustr list \<Rightarrow> BookChunk list \<Rightarrow> ustr list \<Rightarrow> int \<Rightarrow> error + BookChunk list" where
  "chunk_loop target_words wpm [] chunks cur cwc =
     (if cur \<noteq> [] then
        (case create_chunk wpm (int (length chunks)) (join [10, 10] cur) of
           Inl e \<Rightarrow> Inl e
         | Inr c \<Rightarrow> Inr (chunks @ [c]))
      else Inr chunks)"
| "chunk_loop target_words wpm (p # ps) chunks cur cwc =
     (let paragraph = strip p in
      if paragraph = [] then chunk_loop target_words wpm ps chunks cur cwc
      else
        (let paragraph_words = count_words paragraph in
         if cwc + paragraph_words > target_words \<and> cur \<noteq> [] then
           (case create_chunk wpm (int (length chunks)) (join [10, 10] cur) of
              Inl e \<Rightarrow> Inl e
            | Inr c \<Rightarrow> chunk_loop target_words wpm ps (chunks @ [c]) [paragraph] paragraph_words)
         else chunk_loop target_words wpm ps chunks (cur @ [paragraph]) (cwc + paragraph_words)))"

text \<open>
  \<open>target_reading_time\<close> is declared a float and \<open>main.py\<close> passes the int
  \<open>settings.target_reading_time_minutes\<close>: a number is an int or a float.
\<close>

datatype py_number = PyInt int | PyFloat pyfloat

text \<open>
  \<open>x * n\<close> for a number \<open>x\<close> and an int \<open>n\<close>: exact on ints; with a float, \<open>n\<close> is
  first converted to a float (rounded, OverflowError when it is too large) and the
  floats are multiplied.
\<close>

definition int_to_float :: "int \<Rightarrow> error + pyfloat" where
  "int_to_float n =
     (case round_double (of_int n) of None \<Rightarrow> Inl OverflowError | Some r \<Rightarrow> Inr (Fin r))"

definition py_mul :: "py_number \<Rightarrow> int \<Rightarrow> error + py_number" where
  "py_mul x n =
     (case x of
        PyInt a \<Rightarrow> Inr (PyInt (a * n))
      | PyFloat f \<Rightarrow>
          (case int_to_float n of Inl e \<Rightarrow> Inl e | Inr g \<Rightarrow> Inr (PyFloat (float_mul f g))))"

text \<open>
  \<open>int(x)\<close>: a float is truncated toward zero; an infinity raises OverflowError and a
  NaN ValueError.
\<close>

fun py_int :: "py_number \<Rightarrow> error + int" where
  "py_int (PyInt a) = Inr a"
| "py_int (PyFloat (Fin x)) = Inr (if 0 \<le> x then \<lfloor>x\<rfloor> else \<lceil>x\<rceil>)"
| "py_int (PyFloat PInf) = Inl OverflowError"
| "py_int (PyFloat NInf) = Inl OverflowError"
| "py_int (PyFloat NaN) = Inl ValueError"

text \<open>
  \<open>chunk_text\<close>: a blank text gives no chunk, before \<open>target_words\<close> is computed.
\<close>

definition chunk_text :: "py_number \<Rightarrow> int \<Rightarrow> ustr \<Rightarrow> error + BookChunk list" where
  "chunk_text target_reading_time words_per_minute text =
     (if strip text = [] then Inr []
      else
        (case py_mul target_reading_time words_per_minute of
           Inl e \<Rightarrow> Inl e
         | Inr product \<Rightarrow>
             (case py_int product of
                Inl e \<Rightarrow> Inl e
              | Inr target_words \<Rightarrow>
                  chunk_loop target_words words_per_minute (split_str [10, 10] text) [] [] 0)))"

text \<open>
  The paragraphs the loop keeps: the pieces between \<open>'\n\n'\<close>, stripped, the empty ones
  skipped.
\<close>

definition paragraphs_of :: "ustr \<Rightarrow> ustr list" where
  "paragraphs_of text = filter (\<lambda>p. p \<noteq> []) (map strip (split_str [10, 10] text))"

text \<open>
  The target of the specification, \<open>floor(targetMinutes * wordsPerMinute)\<close>: the floor
  of a product that is a finite number.
\<close>

fun py_floor :: "py_number \<Rightarrow> int option" where
  "py_floor (PyInt a) = Some a"
| "py_floor (PyFloat (Fin x)) = Some \<lfloor>x\<rfloor>"
| "py_floor (PyFloat PInf) = None"
| "py_floor (PyFloat NInf) = None"
| "py_floor (PyFloat NaN) = None"

subsection \<open>Notions used in the proofs\<close>

text \<open>The number of words that start in \<open>s\<close>, when the character before is inside a word or not.\<close>

fun nwords :: "bool \<Rightarrow> ustr \<Rightarrow> nat" where
  "nwords inw [] = 0"
| "nwords inw (c # cs) =
     (if is_space c then nwords False cs else (if inw then 0 else 1) + nwords True cs)"

text \<open>
  What the kept paragraphs are: not empty, stripped, and without the separator, also
  when a newline follows.
\<close>

definition para_ok :: "ustr \<Rightarrow> bool" where
  "para_ok p = (p \<noteq> [] \<and> strip p = p \<and> \<not> sublist [10, 10] (p @ [10]))"

text \<open>
  The groups of paragraphs the loop closes, and the chunks made of them; the reading
  time of a chunk is the quotient, which did not raise when the chunk was made.
\<close>

fun group_loop :: "int \<Rightarrow> ustr list \<Rightarrow> ustr list \<Rightarrow> int \<Rightarrow> ustr list list" where
  "group_loop tw [] cur cwc = (if cur \<noteq> [] then [cur] else [])"
| "group_loop tw (p # ps) cur cwc =
     (if cwc + count_words p > tw \<and> cur \<noteq> [] then cur # group_loop tw ps [p] (count_words p)
      else group_loop tw ps (cur @ [p]) (cwc + count_words p))"

definition reading_time_of :: "int \<Rightarrow> int \<Rightarrow> pyfloat" where
  "reading_time_of wc wpm = (case true_div wc wpm of Inl e \<Rightarrow> NaN | Inr x \<Rightarrow> x)"

fun mk_chunks :: "int \<Rightarrow> nat \<Rightarrow> ustr list list \<Rightarrow> BookChunk list" where
  "mk_chunks wpm n [] = []"
| "mk_chunks wpm n (g # gs) =
     \<lparr>index = int n, content = join [10, 10] g, word_count = count_words (join [10, 10] g),
      estimated_reading_time = reading_time_of (count_words (join [10, 10] g)) wpm\<rparr>
     # mk_chunks wpm (Suc n) gs"

section \<open>Floats: helper lemmas\<close>

lemma rhe_le: "x \<le> of_int N \<Longrightarrow> round_half_even x \<le> N"
proof -
  assume a: "x \<le> of_int N"
  then have f: "\<lfloor>x\<rfloor> \<le> N" by (simp add: floor_le_iff) 
  show ?thesis
  proof (cases "\<lfloor>x\<rfloor> = N")
    case True
    then have "x - of_int \<lfloor>x\<rfloor> \<le> 0" using a by simp
    then show ?thesis using True by (simp add: round_half_even_def Let_def)
  next
    case False
    with f have "\<lfloor>x\<rfloor> + 1 \<le> N" by simp
    then show ?thesis by (simp add: round_half_even_def Let_def)
  qed
qed

lemma rhe_ge: "of_int N \<le> x \<Longrightarrow> N \<le> round_half_even x"
proof -
  assume "of_int N \<le> x"
  then have "N \<le> \<lfloor>x\<rfloor>" by (simp add: le_floor_iff)
  then show ?thesis by (simp add: round_half_even_def Let_def)
qed

lemma rhe_gt_half: "of_int N + 1 / 2 < x \<Longrightarrow> N + 1 \<le> round_half_even x"
proof -
  assume a: "of_int N + 1 / 2 < x"
  then have "of_int N \<le> x" by simp
  then have f: "N \<le> \<lfloor>x\<rfloor>" by (simp add: le_floor_iff)
  show ?thesis
  proof (cases "\<lfloor>x\<rfloor> = N")
    case True
    then have "1 / 2 < x - of_int \<lfloor>x\<rfloor>" using a by simp
    then show ?thesis using True by (simp add: round_half_even_def Let_def)
  next
    case False
    with f have "N + 1 \<le> \<lfloor>x\<rfloor>" by simp
    then show ?thesis by (simp add: round_half_even_def Let_def)
  qed
qed

lemma rhe_le_half_even: "x \<le> of_int N + 1 / 2 \<Longrightarrow> even N \<Longrightarrow> round_half_even x \<le> N"
proof -
  assume a: "x \<le> of_int N + 1 / 2" and ev: "even N"
  then have "x < of_int N + 1" by simp
  then have "x < of_int (N + 1)" by simp
  then have f: "\<lfloor>x\<rfloor> < N + 1" by (simp only: floor_less_iff)
  show ?thesis
  proof (cases "\<lfloor>x\<rfloor> = N")
    case True
    then have "x - of_int \<lfloor>x\<rfloor> \<le> 1 / 2" using a by simp
    then show ?thesis using True ev by (simp add: round_half_even_def Let_def)
  next
    case False
    with f have "\<lfloor>x\<rfloor> + 1 \<le> N" by simp
    then show ?thesis by (simp add: round_half_even_def Let_def)
  qed
qed

lemma rhe_of_int: "round_half_even (of_int N) = N"
  by (simp add: round_half_even_def)

lemma expo_range: "- 1022 \<le> expo a n \<and> expo a n \<le> int n - 1022"
  by (induction n) auto

lemma expo_ge: "- 1022 \<le> k \<Longrightarrow> k \<le> int n - 1022 \<Longrightarrow> 2 powi k \<le> a \<Longrightarrow> k \<le> expo a n"
proof (induction n)
  case 0
  then show ?case by simp
next
  case (Suc n)
  show ?case
  proof (cases "2 powi (int (Suc n) - 1022) \<le> a")
    case True
    then show ?thesis using Suc.prems by simp
  next
    case False
    then have "k \<noteq> int (Suc n) - 1022" using Suc.prems by auto
    then have "k \<le> int n - 1022" using Suc.prems by simp
    from Suc.IH[OF Suc.prems(1) this Suc.prems(3)] show ?thesis using False by simp
  qed
qed

lemma expo_lower: "expo a n \<noteq> - 1022 \<Longrightarrow> 2 powi (expo a n) \<le> a"
  by (induction n) (auto split: if_splits)

lemma expo_upper: "expo a n < int n - 1022 \<Longrightarrow> a < 2 powi (expo a n + 1)"
proof (induction n)
  case 0
  then show ?case by simp
next
  case (Suc n)
  show ?case
  proof (cases "2 powi (int (Suc n) - 1022) \<le> a")
    case True
    then show ?thesis using Suc.prems by simp
  next
    case False
    then have e: "expo a (Suc n) = expo a n" by simp
    show ?thesis
    proof (cases "expo a n < int n - 1022")
      case True
      from Suc.IH[OF True] e show ?thesis by simp
    next
      case F: False
      with expo_range[of a n] have "expo a n = int n - 1022" by simp
      then have eq: "int (Suc n) - 1022 = expo a n + 1" by simp
      from False have "\<not> 2 powi (expo a n + 1) \<le> a" unfolding eq .
      then show ?thesis unfolding e by simp
    qed
  qed
qed

lemma expo_eq:
  assumes "- 1022 \<le> k" "k \<le> 1023" "2 powi k \<le> a" "a < 2 powi (k + 1)"
  shows "expo a 2045 = k"
proof -
  have g: "k \<le> expo a 2045" using expo_ge[of k 2045 a] assms by simp
  have "\<not> k < expo a 2045"
  proof
    assume l: "k < expo a 2045"
    then have "expo a 2045 \<noteq> - 1022" using assms(1) by simp
    from expo_lower[OF this] have "2 powi (expo a 2045) \<le> a" .
    moreover have "(2::rat) powi (k + 1) \<le> 2 powi (expo a 2045)"
      using l by (intro power_int_increasing) simp_all
    ultimately show False using assms(4) by simp
  qed
  with g show ?thesis by simp
qed

lemma powi_shift: "(2::rat) powi a * 2 powi b = 2 powi (a + b)"
  by (simp add: power_int_add)

lemma powi_52: "(2::rat) powi k = 2 ^ 52 * 2 powi (k - 52)"
proof -
  have "(2::rat) powi k = 2 powi (52 + (k - 52))"
    by (rule arg_cong[where f="\<lambda>x. 2 powi x"]) simp
  also have "\<dots> = 2 powi 52 * 2 powi (k - 52)" by (simp only: powi_shift)
  also have "(2::rat) powi 52 = 2 ^ 52" by simp
  finally show ?thesis .
qed

lemma powi_53: "(2::rat) powi (k + 1) = 2 ^ 53 * 2 powi (k - 52)"
proof -
  have "(2::rat) powi (k + 1) = 2 powi (53 + (k - 52))"
    by (rule arg_cong[where f="\<lambda>x. 2 powi x"]) simp
  also have "\<dots> = 2 powi 53 * 2 powi (k - 52)" by (simp only: powi_shift)
  also have "(2::rat) powi 53 = 2 ^ 53" by simp
  finally show ?thesis .
qed

lemma powi_cancel: "x * (2::rat) powi (k - 52) * 2 powi (52 - k) = x"
proof -
  have "(2::rat) powi (k - 52) * 2 powi (52 - k) = 2 powi ((k - 52) + (52 - k))"
    by (simp only: powi_shift)
  then have "(2::rat) powi (k - 52) * 2 powi (52 - k) = 1" by simp
  then show ?thesis by (simp add: mult.assoc)
qed

lemma powi_pos: "0 < (2::rat) powi k"
  by (simp add: zero_less_power_int)

lemma round_double_upper:
  assumes q0: "0 \<le> q" and qM: "q \<le> (of_int M + 1 / 2) * 2 powi (k - 52)"
    and ev: "even M" and M1: "2 ^ 52 \<le> M" and M2: "M < 2 ^ 53"
    and k1: "- 1022 \<le> k" and k2: "k \<le> 1023"
  shows "\<exists>r. round_double q = Some r \<and> 0 \<le> r \<and> r \<le> of_int M * 2 powi (k - 52)"
proof -
  define e where "e = expo q 2045"
  define n where "n = round_half_even (q * 2 powi (52 - e))"
  define r :: rat where "r = of_int n * 2 powi (e - 52)"
  have er: "- 1022 \<le> e" "e \<le> 1023" using expo_range[of q 2045] by (simp_all add: e_def)
  have M2': "(of_int M :: rat) + 1 / 2 < 2 ^ 53"
  proof -
    from M2 have "M + 1 \<le> 2 ^ 53" by simp
    then have "(of_int (M + 1) :: rat) \<le> of_int (2 ^ 53)" by (simp only: of_int_le_iff)
    then show ?thesis by simp
  qed
  have qlt: "q < 2 powi (k + 1)"
  proof -
    have "(of_int M + 1 / 2) * 2 powi (k - 52) < 2 ^ 53 * (2::rat) powi (k - 52)"
      using M2' powi_pos[of "k - 52"] by (simp only: mult_less_cancel_right_pos)
    with qM show ?thesis by (simp only: powi_53)
  qed
  have ek: "e \<le> k"
  proof (rule ccontr)
    assume "\<not> e \<le> k"
    then have l: "k + 1 \<le> e" by simp
    then have "e \<noteq> - 1022" using k1 by simp
    then have "2 powi e \<le> q" unfolding e_def by (rule expo_lower)
    moreover have "(2::rat) powi (k + 1) \<le> 2 powi e"
      using l by (intro power_int_increasing) simp_all
    ultimately show False using qlt by simp
  qed
  have n0: "0 \<le> n"
  proof -
    have "(of_int 0 :: rat) \<le> q * 2 powi (52 - e)" using q0 powi_pos[of "52 - e"] by simp
    then show ?thesis unfolding n_def by (rule rhe_ge)
  qed
  have M1': "(2::rat) ^ 52 \<le> of_int M"
  proof -
    from M1 have "(of_int (2 ^ 52) :: rat) \<le> of_int M" by (simp only: of_int_le_iff)
    then show ?thesis by simp
  qed
  have rM: "r \<le> of_int M * 2 powi (k - 52)"
  proof (cases "e = k")
    case True
    have "q * 2 powi (52 - k) \<le> (of_int M + 1 / 2) * 2 powi (k - 52) * 2 powi (52 - k)"
      using qM powi_pos[of "52 - k"] by (simp only: mult_le_cancel_right_pos)
    then have "q * 2 powi (52 - k) \<le> of_int M + 1 / 2" by (simp only: powi_cancel)
    then have "n \<le> M" unfolding n_def True using ev by (rule rhe_le_half_even)
    then have "(of_int n :: rat) \<le> of_int M" by simp
    then show ?thesis unfolding r_def True using powi_pos[of "k - 52"]
      by (simp only: mult_le_cancel_right_pos)
  next
    case False
    with ek have l: "e + 1 \<le> k" by simp
    then have "e < int 2045 - 1022" using k2 by simp
    then have "q < 2 powi (e + 1)" unfolding e_def by (rule expo_upper)
    then have "q < 2 ^ 53 * 2 powi (e - 52)" by (simp only: powi_53)
    then have "q * 2 powi (52 - e) < 2 ^ 53 * 2 powi (e - 52) * 2 powi (52 - e)"
      using powi_pos[of "52 - e"] by (simp only: mult_less_cancel_right_pos)
    then have "q * 2 powi (52 - e) < 2 ^ 53" by (simp only: powi_cancel)
    then have "q * 2 powi (52 - e) \<le> of_int (2 ^ 53)" by simp
    then have "n \<le> 2 ^ 53" unfolding n_def by (rule rhe_le)
    then have "(of_int n :: rat) \<le> of_int (2 ^ 53)" by (simp only: of_int_le_iff)
    then have "(of_int n :: rat) \<le> 2 ^ 53" by simp
    then have "r \<le> 2 ^ 53 * 2 powi (e - 52)" unfolding r_def using powi_pos[of "e - 52"]
      by (simp only: mult_le_cancel_right_pos)
    then have "r \<le> 2 powi (e + 1)" by (simp only: powi_53)
    also have "(2::rat) powi (e + 1) \<le> 2 powi k"
      using l by (intro power_int_increasing) simp_all
    also have "(2::rat) powi k = 2 ^ 52 * 2 powi (k - 52)" by (rule powi_52)
    also have "\<dots> \<le> of_int M * 2 powi (k - 52)"
      using M1' powi_pos[of "k - 52"] by (simp only: mult_le_cancel_right_pos)
    finally show ?thesis .
  qed
  have r0: "0 \<le> r" unfolding r_def using n0 powi_pos[of "e - 52"] by simp
  have "of_int M * 2 powi (k - 52) < (2::rat) ^ 53 * 2 powi (k - 52)"
  proof -
    from M2 have "(of_int M :: rat) < of_int (2 ^ 53)" by (simp only: of_int_less_iff)
    then have "(of_int M :: rat) < 2 ^ 53" by simp
    then show ?thesis using powi_pos[of "k - 52"] by (simp only: mult_less_cancel_right_pos)
  qed
  then have "of_int M * 2 powi (k - 52) < (2::rat) powi (k + 1)" by (simp only: powi_53)
  also have "(2::rat) powi (k + 1) \<le> 2 powi 1024"
    using k2 by (intro power_int_increasing) simp_all
  finally have "of_int M * 2 powi (k - 52) < (2::rat) ^ 1024" by simp
  with rM have nov: "\<not> 2 ^ 1024 \<le> r" by simp
  have "round_double q = Some r"
    using nov q0 unfolding round_double_def Let_def r_def n_def e_def by simp
  with r0 rM show ?thesis by simp
qed

lemma round_double_lower:
  assumes q0: "0 \<le> q" and qM: "(of_int M - 1 / 2) * 2 powi (k - 52) < q"
    and M1: "2 ^ 52 < M" and M2: "M \<le> 2 ^ 53"
    and k1: "- 1022 \<le> k" and k2: "k \<le> 1023"
    and rd: "round_double q = Some r"
  shows "of_int M * 2 powi (k - 52) \<le> r"
proof -
  define e where "e = expo q 2045"
  define n where "n = round_half_even (q * 2 powi (52 - e))"
  have r: "r = of_int n * 2 powi (e - 52)"
    using rd q0 unfolding round_double_def Let_def n_def e_def by (simp split: if_splits)
  have M1': "(2::rat) ^ 52 \<le> of_int M - 1 / 2"
  proof -
    from M1 have "2 ^ 52 + 1 \<le> M" by simp
    then have "(of_int (2 ^ 52 + 1) :: rat) \<le> of_int M" by (simp only: of_int_le_iff)
    then show ?thesis by simp
  qed
  have "(2::rat) powi k = 2 ^ 52 * 2 powi (k - 52)" by (rule powi_52)
  also have "\<dots> \<le> (of_int M - 1 / 2) * 2 powi (k - 52)"
    using M1' powi_pos[of "k - 52"] by (simp only: mult_le_cancel_right_pos)
  finally have "2 powi k \<le> q" using qM by simp
  then have ke: "k \<le> e" unfolding e_def using k1 k2 by (intro expo_ge) simp_all
  show ?thesis
  proof (cases "e = k")
    case True
    have "(of_int M - 1 / 2) * 2 powi (k - 52) * 2 powi (52 - k) < q * 2 powi (52 - k)"
      using qM powi_pos[of "52 - k"] by (simp only: mult_less_cancel_right_pos)
    then have "of_int M - 1 / 2 < q * 2 powi (52 - k)" by (simp only: powi_cancel)
    then have "of_int (M - 1) + 1 / 2 < q * 2 powi (52 - k)" by simp
    then have "(M - 1) + 1 \<le> n" unfolding n_def True by (rule rhe_gt_half)
    then have "(of_int M :: rat) \<le> of_int n" by simp
    then show ?thesis unfolding r True using powi_pos[of "k - 52"]
      by (simp only: mult_le_cancel_right_pos)
  next
    case False
    with ke have l: "k + 1 \<le> e" by simp
    then have "e \<noteq> - 1022" using k1 by simp
    then have "2 powi e \<le> q" unfolding e_def by (rule expo_lower)
    then have "2 ^ 52 * 2 powi (e - 52) \<le> q" using powi_52[of e] by simp
    then have "2 ^ 52 * 2 powi (e - 52) * 2 powi (52 - e) \<le> q * 2 powi (52 - e)"
      using powi_pos[of "52 - e"] by (simp only: mult_le_cancel_right_pos)
    then have "2 ^ 52 \<le> q * 2 powi (52 - e)" by (simp only: powi_cancel)
    then have "of_int (2 ^ 52) \<le> q * 2 powi (52 - e)" by simp
    then have "2 ^ 52 \<le> n" unfolding n_def by (rule rhe_ge)
    then have "(of_int (2 ^ 52) :: rat) \<le> of_int n" by (simp only: of_int_le_iff)
    then have "(2 ^ 52 :: rat) \<le> of_int n" by simp
    then have "2 ^ 52 * 2 powi (e - 52) \<le> r" unfolding r using powi_pos[of "e - 52"]
      by (simp only: mult_le_cancel_right_pos)
    then have "2 powi e \<le> r" using powi_52[of e] by simp
    moreover have "(2::rat) powi (k + 1) \<le> 2 powi e"
      using l by (intro power_int_increasing) simp_all
    moreover have "of_int M * 2 powi (k - 52) \<le> (2::rat) powi (k + 1)"
    proof -
      from M2 have "(of_int M :: rat) \<le> of_int (2 ^ 53)" by (simp only: of_int_le_iff)
      then have "(of_int M :: rat) \<le> 2 ^ 53" by simp
      then have "of_int M * 2 powi (k - 52) \<le> (2::rat) ^ 53 * 2 powi (k - 52)"
        using powi_pos[of "k - 52"] by (simp only: mult_le_cancel_right_pos)
      then show ?thesis by (simp only: powi_53)
    qed
    ultimately show ?thesis by simp
  qed
qed

lemma round_double_exact:
  assumes M1: "2 ^ 52 \<le> M" and M2: "M < 2 ^ 53" and k1: "- 1022 \<le> k" and k2: "k \<le> 1023"
  shows "round_double (of_int M * 2 powi (k - 52)) = Some (of_int M * 2 powi (k - 52))"
proof -
  let ?q = "(of_int M :: rat) * 2 powi (k - 52)"
  have Mr: "(2::rat) ^ 52 \<le> of_int M" "(of_int M :: rat) < 2 ^ 53"
  proof -
    from M1 have "(of_int (2 ^ 52) :: rat) \<le> of_int M" by (simp only: of_int_le_iff)
    then show "(2::rat) ^ 52 \<le> of_int M" by simp
    from M2 have "(of_int M :: rat) < of_int (2 ^ 53)" by (simp only: of_int_less_iff)
    then show "(of_int M :: rat) < 2 ^ 53" by simp
  qed
  have q0: "0 \<le> ?q" using Mr(1) powi_pos[of "k - 52"] by simp
  have lo: "2 powi k \<le> ?q"
    using Mr(1) powi_pos[of "k - 52"] by (simp only: powi_52[of k] mult_le_cancel_right_pos)
  have hi: "?q < 2 powi (k + 1)"
    using Mr(2) powi_pos[of "k - 52"] by (simp only: powi_53[of k] mult_less_cancel_right_pos)
  have e: "expo ?q 2045 = k" using k1 k2 lo hi by (rule expo_eq)
  have "?q < 2 powi (k + 1)" by (rule hi)
  also have "(2::rat) powi (k + 1) \<le> 2 powi 1024"
    using k2 by (intro power_int_increasing) simp_all
  finally have nov: "\<not> 2 ^ 1024 \<le> ?q" by simp
  have a: "\<bar>?q\<bar> = ?q" using q0 by simp
  have x: "?q * 2 powi (52 - k) = of_int M" by (simp only: powi_cancel)
  show ?thesis
    unfolding round_double_def Let_def a e x rhe_of_int using nov q0 by simp
qed

lemma round_double_zero: "round_double 0 = Some 0"
proof -
  have "expo 0 2045 = - 1022"
  proof (rule ccontr)
    assume "expo 0 2045 \<noteq> - 1022"
    from expo_lower[OF this] powi_pos[of "expo 0 2045"] show False by simp
  qed
  then show ?thesis by (simp add: round_double_def rhe_of_int[of 0, simplified])
qed

lemma round_double_nonneg:
  assumes "0 \<le> q" "round_double q = Some r"
  shows "0 \<le> r"
proof -
  have "(of_int 0 :: rat) \<le> q * 2 powi (52 - expo q 2045)"
    using assms(1) powi_pos[of "52 - expo q 2045"] by simp
  then have "0 \<le> round_half_even (q * 2 powi (52 - expo q 2045))" by (rule rhe_ge)
  then have "0 \<le> (of_int (round_half_even (q * 2 powi (52 - expo q 2045))) :: rat) * 2 powi (expo q 2045 - 52)"
    using powi_pos[of "expo q 2045 - 52"] by simp
  then show ?thesis using assms unfolding round_double_def Let_def by (simp split: if_splits)
qed

lemma powi_neg52: "(2::rat) powi (0 - 52) = 1 / 2 ^ 52"
  by (simp add: power_int_minus field_simps)

lemma powi_neg46: "(2::rat) powi (6 - 52) = 1 / 2 ^ 46"
  by (simp add: power_int_minus field_simps)

lemma ratio_threshold:
  assumes "0 < t"
  shows "(of_int c / of_int t \<le> ((of_int (2 ^ 52) + 1 / 2) * 2 powi (0 - 52) :: rat))
          \<longleftrightarrow> c * 2 ^ 53 \<le> t * (2 ^ 53 + 1)"
proof -
  have p: "(0::rat) < of_int t" using assms by simp
  have "(of_int (2 ^ 52) + 1 / 2) * 2 powi (0 - 52) = ((2 ^ 53 + 1) / 2 ^ 53 :: rat)"
    unfolding powi_neg52 by simp
  moreover have "(of_int c / of_int t \<le> ((2 ^ 53 + 1) / 2 ^ 53 :: rat))
       \<longleftrightarrow> (of_int (c * 2 ^ 53) :: rat) \<le> of_int (t * (2 ^ 53 + 1))"
    using p by (simp add: field_simps)
  ultimately show ?thesis by (simp only: of_int_le_iff)
qed

lemma percentage_small:
  assumes "0 \<le> q" "q \<le> (of_int (2 ^ 52) + 1 / 2) * 2 powi (0 - 52)"
  shows "\<exists>y p. round_double q = Some y \<and> round_double (y * 100) = Some p \<and> 0 \<le> p \<and> p \<le> 100"
proof -
  from round_double_upper[OF assms, of ] obtain y where
    y: "round_double q = Some y" "0 \<le> y" "y \<le> of_int (2 ^ 52) * 2 powi (0 - 52)"
    by auto
  from y(3) have y1: "y \<le> 1" unfolding powi_neg52 by simp
  have a0: "0 \<le> y * 100" using y(2) by simp
  have a1: "y * 100 \<le> (of_int (100 * 2 ^ 46) + 1 / 2) * 2 powi (6 - 52)"
    using y1 unfolding powi_neg46 by simp
  from round_double_upper[OF a0 a1] obtain p where
    p: "round_double (y * 100) = Some p" "0 \<le> p" "p \<le> of_int (100 * 2 ^ 46) * 2 powi (6 - 52)"
    by auto
  from p(3) have "p \<le> 100" unfolding powi_neg46 by simp
  with y(1) p(1,2) show ?thesis by simp
qed

lemma percentage_large:
  assumes "0 \<le> q" "\<not> q \<le> (of_int (2 ^ 52) + 1 / 2) * 2 powi (0 - 52)"
    "round_double q = Some y" "round_double (y * 100) = Some p"
  shows "100 < p"
proof -
  have "(of_int (2 ^ 52 + 1) - 1 / 2) * 2 powi (0 - 52) < q" using assms(2) by simp
  from round_double_lower[OF assms(1) this _ _ _ _ assms(3)]
  have y: "of_int (2 ^ 52 + 1) * 2 powi (0 - 52) \<le> y" by simp
  then have y0: "0 \<le> y" unfolding powi_neg52 by simp
  have a0: "0 \<le> y * 100" using y0 by simp
  have a1: "(of_int (100 * 2 ^ 46 + 1) - 1 / 2) * 2 powi (6 - 52) < y * 100"
    using y unfolding powi_neg46 powi_neg52 by simp
  from round_double_lower[OF a0 a1 _ _ _ _ assms(4)]
  have "of_int (100 * 2 ^ 46 + 1) * 2 powi (6 - 52) \<le> p" by simp
  then show ?thesis unfolding powi_neg46 by simp
qed

lemma progress_percentage_cases:
  assumes "0 \<le> current_chunk bp" "0 \<le> total_chunks bp"
  shows "(progress_percentage bp = Inl OverflowError \<or> progress_percentage bp = Inr PInf
           \<or> (\<exists>p. progress_percentage bp = Inr (Fin p) \<and> 0 \<le> p))
       \<and> ((\<exists>p. progress_percentage bp = Inr (Fin p) \<and> p \<le> 100)
            \<longleftrightarrow> (total_chunks bp = 0
                 \<or> current_chunk bp * 2 ^ 53 \<le> total_chunks bp * (2 ^ 53 + 1)))"
proof (cases "total_chunks bp = 0")
  case True
  then have "progress_percentage bp = Inr (Fin 0)" by (simp add: progress_percentage_def)
  with True show ?thesis by simp
next
  case False
  with assms have t: "0 < total_chunks bp" by simp
  define q :: rat where "q = of_int (current_chunk bp) / of_int (total_chunks bp)"
  have q0: "0 \<le> q" unfolding q_def using assms t by simp
  have thr: "q \<le> (of_int (2 ^ 52) + 1 / 2) * 2 powi (0 - 52)
        \<longleftrightarrow> current_chunk bp * 2 ^ 53 \<le> total_chunks bp * (2 ^ 53 + 1)"
    unfolding q_def by (rule ratio_threshold[OF t])
  have pp: "progress_percentage bp =
      (case round_double q of None \<Rightarrow> Inl OverflowError
       | Some y \<Rightarrow> Inr (case round_double (y * 100) of Some r \<Rightarrow> Fin r
                        | None \<Rightarrow> if 0 < y * 100 then PInf else NInf))"
    using False by (simp add: progress_percentage_def true_div_def q_def split: option.splits)
  show ?thesis
  proof (cases "q \<le> (of_int (2 ^ 52) + 1 / 2) * 2 powi (0 - 52)")
    case True
    from percentage_small[OF q0 True] obtain y p where
      "round_double q = Some y" "round_double (y * 100) = Some p" "0 \<le> p" "p \<le> 100"
      by blast
    then have "progress_percentage bp = Inr (Fin p) \<and> 0 \<le> p \<and> p \<le> 100"
      by (simp add: pp)
    then show ?thesis using True thr by auto
  next
    case nle: False
    show ?thesis
    proof (cases "round_double q")
      case None
      then have "progress_percentage bp = Inl OverflowError" by (simp add: pp)
      then show ?thesis using nle thr False by simp
    next
      case (Some y)
      have y0: "0 \<le> y" using q0 Some by (rule round_double_nonneg)
      show ?thesis
      proof (cases "round_double (y * 100)")
        case None
        have "y \<noteq> 0"
        proof
          assume "y = 0"
          with None round_double_zero show False by simp
        qed
        with y0 have "0 < y * 100" by simp
        with None Some have "progress_percentage bp = Inr PInf" by (simp add: pp)
        then show ?thesis using nle thr False by simp
      next
        case (Some p)
        from percentage_large[OF q0 nle \<open>round_double q = Some y\<close> Some] have "100 < p" .
        moreover have "progress_percentage bp = Inr (Fin p)"
          using Some \<open>round_double q = Some y\<close> by (simp add: pp)
        ultimately show ?thesis using nle thr False by simp
      qed
    qed
  qed
qed

lemma round_double_2: "round_double 2 = Some 2"
  using round_double_exact[of "2 ^ 52" 1] by (simp add: power_int_minus)

lemma round_double_200: "round_double 200 = Some 200"
  using round_double_exact[of "25 * 2 ^ 48" 7] by (simp add: power_int_minus)

section \<open>Progress: helper lemmas\<close>

lemma update_of_get:
  assumes "get_book_progress f b = Inr bp"
  shows "\<exists>f'. update_book_progress f b n = Inr (f', mark_chunk_read (bp\<lparr>total_chunks := n\<rparr>))"
  using assms by (simp add: update_book_progress_def Let_def)
lemma mark_chunk_read_current:
  "current_chunk bp \<le> current_chunk (mark_chunk_read bp)"
  by (simp add: mark_chunk_read_def Let_def)

lemma mark_chunk_read_total:
  "total_chunks (mark_chunk_read bp) = total_chunks bp"
  by (simp add: mark_chunk_read_def Let_def)

lemma get_book_progress_File:
  "get_book_progress (File (Some bs)) b =
     (let book_data = (case bs b of None \<Rightarrow> empty_entry | Some d \<Rightarrow> d)
      in Inr \<lparr>current_chunk = (case e_current_chunk book_data of None \<Rightarrow> 0 | Some v \<Rightarrow> v),
              total_chunks = (case e_total_chunks book_data of None \<Rightarrow> 0 | Some v \<Rightarrow> v),
              reading_days = (case e_reading_days book_data of None \<Rightarrow> 0 | Some v \<Rightarrow> v),
              completed = (case e_completed book_data of None \<Rightarrow> False | Some v \<Rightarrow> v)\<rparr>)"
  by (simp add: get_book_progress_def load_progress_def)

lemma get_after_update:
  assumes "update_book_progress f b n = Inr (f', bp)"
  shows "get_book_progress f' b = Inr bp"
proof (cases "get_book_progress f b")
  case (Inl e)
  with assms show ?thesis by (simp add: update_book_progress_def Let_def)
next
  case (Inr bp0)
  define bs0 where "bs0 = (case load_progress f of None \<Rightarrow> Map.empty | Some bs \<Rightarrow> bs)"
  define bs1 where "bs1 = (if bs0 b = None then bs0(b \<mapsto> empty_entry) else bs0)"
  define ent where "ent = \<lparr>e_current_chunk = Some (current_chunk bp),
                              e_total_chunks = Some (total_chunks bp),
                              e_reading_days = Some (reading_days bp),
                              e_completed = Some (completed bp)\<rparr>"
  from assms Inr have bp: "bp = mark_chunk_read (bp0\<lparr>total_chunks := n\<rparr>)"
    by (simp add: update_book_progress_def Let_def)
  from assms Inr have "f' = File (Some (bs1(b \<mapsto> ent)))"
    unfolding bs1_def bs0_def ent_def bp
    by (simp add: update_book_progress_def Let_def)
  then show ?thesis by (simp add: get_book_progress_File ent_def)
qed

lemma get_after_set_total:
  assumes "get_book_progress f b = Inr bp"
  shows "get_book_progress (set_book_total_chunks f b n) b = Inr (bp\<lparr>total_chunks := n\<rparr>)"
proof (cases "load_progress f")
  case None
  with assms show ?thesis by (simp add: get_book_progress_def)
next
  case (Some bs)
  show ?thesis
  proof (cases "bs b")
    case None
    from None Some assms have bp: "bp = \<lparr>current_chunk = 0, total_chunks = 0, reading_days = 0, completed = False\<rparr>"
      by (simp add: get_book_progress_def empty_entry_def)
    from None Some show ?thesis unfolding bp
      by (simp add: set_book_total_chunks_def get_book_progress_File Let_def empty_entry_def)
  next
    case (Some d)
    from Some \<open>load_progress f = Some bs\<close> assms have bp: "bp = \<lparr>current_chunk = (case e_current_chunk d of None \<Rightarrow> 0 | Some v \<Rightarrow> v),
              total_chunks = (case e_total_chunks d of None \<Rightarrow> 0 | Some v \<Rightarrow> v),
              reading_days = (case e_reading_days d of None \<Rightarrow> 0 | Some v \<Rightarrow> v),
              completed = (case e_completed d of None \<Rightarrow> False | Some v \<Rightarrow> v)\<rparr>"
      by (simp add: get_book_progress_def)
    from Some \<open>load_progress f = Some bs\<close> show ?thesis unfolding bp
      by (simp add: set_book_total_chunks_def get_book_progress_File Let_def)
  qed
qed

lemma mark_chunk_read_bound:
  "current_chunk (mark_chunk_read bp) \<le> total_chunks bp \<longleftrightarrow> current_chunk bp \<le> total_chunks bp"
  by (cases "current_chunk bp < total_chunks bp") (simp_all add: mark_chunk_read_def Let_def)

lemma mark_chunk_read_fields:
  "mark_chunk_read \<lparr>current_chunk = c, total_chunks = t, reading_days = d, completed = k\<rparr> =
     (if c < t then \<lparr>current_chunk = c + 1, total_chunks = t, reading_days = d + 1,
                     completed = (k \<or> c + 1 \<ge> t)\<rparr>
      else \<lparr>current_chunk = c, total_chunks = t, reading_days = d, completed = k\<rparr>)"
  by (simp add: mark_chunk_read_def Let_def)

lemma completed_inv_set_total:
  "completed_inv (bp\<lparr>total_chunks := n\<rparr>) \<longleftrightarrow> \<not> breaks_inv bp (SetTotalUnits n)"
  by (cases bp) (auto simp: completed_inv_def)

lemma completed_inv_advance:
  "completed_inv (mark_chunk_read (bp\<lparr>total_chunks := n\<rparr>)) \<longleftrightarrow> \<not> breaks_inv bp (Advance n)"
proof (cases bp)
  case (fields c t d k)
  show ?thesis
  proof (cases "c < n")
    case True
    then show ?thesis using fields
      by (auto simp: mark_chunk_read_fields completed_inv_def)
  next
    case False
    then show ?thesis using fields
      by (auto simp: mark_chunk_read_fields completed_inv_def)
  qed
qed

lemma apply_op_step:
  assumes "get_book_progress f b = Inr bp"
  shows "\<exists>f' bp'. apply_op f b x = Inr f' \<and> get_book_progress f' b = Inr bp'
            \<and> (completed_inv bp' \<longleftrightarrow> \<not> breaks_inv bp x)"
proof (cases x)
  case (Advance n)
  from update_of_get[OF assms, of n] obtain f' where
    u: "update_book_progress f b n = Inr (f', mark_chunk_read (bp\<lparr>total_chunks := n\<rparr>))" by blast
  show ?thesis using u get_after_update[OF u] completed_inv_advance Advance
    by simp
next
  case (SetTotalUnits n)
  show ?thesis using get_after_set_total[OF assms, of n] completed_inv_set_total SetTotalUnits
    by simp
qed

lemma op_trace_props:
  assumes "get_book_progress f b = Inr bp0"
  shows "\<exists>bps. op_trace f b xs = Inr bps \<and> length bps = length xs
          \<and> (\<forall>i<length xs. completed_inv (bps ! i) \<longleftrightarrow> \<not> breaks_inv ((bp0 # bps) ! i) (xs ! i))"
  using assms
proof (induction xs arbitrary: f bp0)
  case Nil
  then show ?case by simp
next
  case (Cons x xs)
  from apply_op_step[OF Cons.prems, of x] obtain f' bp' where
    a: "apply_op f b x = Inr f'" and g: "get_book_progress f' b = Inr bp'"
    and s: "completed_inv bp' \<longleftrightarrow> \<not> breaks_inv bp0 x" by blast
  from Cons.IH[OF g] obtain bps where
    t: "op_trace f' b xs = Inr bps" and l: "length bps = length xs"
    and r: "\<forall>i<length xs. completed_inv (bps ! i) \<longleftrightarrow> \<not> breaks_inv ((bp' # bps) ! i) (xs ! i)"
    by blast
  have "\<forall>i<length (x # xs). completed_inv ((bp' # bps) ! i)
          \<longleftrightarrow> \<not> breaks_inv ((bp0 # bp' # bps) ! i) ((x # xs) ! i)"
  proof (intro allI impI)
    fix i assume "i < length (x # xs)"
    then show "completed_inv ((bp' # bps) ! i) \<longleftrightarrow> \<not> breaks_inv ((bp0 # bp' # bps) ! i) ((x # xs) ! i)"
      using s r by (cases i) simp_all
  qed
  with a g t l show ?case by simp
qed

lemma advance_trace_props:
  assumes "get_book_progress f b = Inr bp0"
  shows "\<exists>bps. advance_trace f b ns = Inr bps \<and> length bps = length ns
          \<and> map total_chunks bps = ns
          \<and> sorted (map current_chunk (bp0 # bps))
          \<and> (\<forall>i<length ns. current_chunk (bps ! i) \<le> total_chunks (bps ! i)
                \<longleftrightarrow> current_chunk ((bp0 # bps) ! i) \<le> ns ! i)"
  using assms
proof (induction ns arbitrary: f bp0)
  case Nil
  then show ?case by simp
next
  case (Cons n ns)
  let ?bp = "mark_chunk_read (bp0\<lparr>total_chunks := n\<rparr>)"
  from update_of_get[OF Cons.prems, of n] obtain f' where
    u: "update_book_progress f b n = Inr (f', ?bp)" by blast
  have g: "get_book_progress f' b = Inr ?bp" by (rule get_after_update[OF u])
  from Cons.IH[OF g] obtain bps where
    t: "advance_trace f' b ns = Inr bps" and l: "length bps = length ns"
    and tot: "map total_chunks bps = ns"
    and s: "sorted (map current_chunk (?bp # bps))"
    and r: "\<forall>i<length ns. current_chunk (bps ! i) \<le> total_chunks (bps ! i)
                \<longleftrightarrow> current_chunk ((?bp # bps) ! i) \<le> ns ! i"
    by blast
  have c0: "current_chunk bp0 \<le> current_chunk ?bp"
    using mark_chunk_read_current[of "bp0\<lparr>total_chunks := n\<rparr>"] by simp
  have tn: "total_chunks ?bp = n" by (simp add: mark_chunk_read_total)
  have s': "sorted (map current_chunk (bp0 # ?bp # bps))"
    using s c0 by auto
  have b0: "current_chunk ?bp \<le> total_chunks ?bp \<longleftrightarrow> current_chunk bp0 \<le> n"
    using mark_chunk_read_bound[of "bp0\<lparr>total_chunks := n\<rparr>"] tn by simp
  have "\<forall>i<length (n # ns). current_chunk ((?bp # bps) ! i) \<le> total_chunks ((?bp # bps) ! i)
                \<longleftrightarrow> current_chunk ((bp0 # ?bp # bps) ! i) \<le> (n # ns) ! i"
  proof (intro allI impI)
    fix i assume "i < length (n # ns)"
    then show "current_chunk ((?bp # bps) ! i) \<le> total_chunks ((?bp # bps) ! i)
                \<longleftrightarrow> current_chunk ((bp0 # ?bp # bps) ! i) \<le> (n # ns) ! i"
      using b0 r by (cases i) simp_all
  qed
  with u t l tot s' tn show ?case by simp
qed

lemmas progress_eval = update_book_progress_def set_book_total_chunks_def get_book_progress_def
  load_progress_def empty_entry_def mark_chunk_read_def Let_def

section \<open>Progress: the claims\<close>

text \<open>
  C1. From a book with no tracked progress, four \<open>update_book_progress\<close> calls with
  total 3 return the snapshots (1, 1, not completed), (2, 2, not completed),
  (3, 3, completed) and again (3, 3, completed): the fourth call changes nothing.
\<close>

theorem advance_scenario: 
  assumes "get_book_progress f b = Inr fresh_progress"
  shows "advance_trace f b [3, 3, 3, 3] =
     Inr [\<lparr>current_chunk = 1, total_chunks = 3, reading_days = 1, completed = False\<rparr>,
          \<lparr>current_chunk = 2, total_chunks = 3, reading_days = 2, completed = False\<rparr>,
          \<lparr>current_chunk = 3, total_chunks = 3, reading_days = 3, completed = True\<rparr>,
          \<lparr>current_chunk = 3, total_chunks = 3, reading_days = 3, completed = True\<rparr>]"
proof -
  let ?s1 = "\<lparr>current_chunk = 1, total_chunks = 3, reading_days = 1, completed = False\<rparr>"
  let ?s2 = "\<lparr>current_chunk = 2, total_chunks = 3, reading_days = 2, completed = False\<rparr>"
  let ?s3 = "\<lparr>current_chunk = 3, total_chunks = 3, reading_days = 3, completed = True\<rparr>"
  have m1: "mark_chunk_read (fresh_progress\<lparr>total_chunks := 3\<rparr>) = ?s1"
    by (simp add: mark_chunk_read_def fresh_progress_def Let_def)
  have m2: "mark_chunk_read (?s1\<lparr>total_chunks := 3\<rparr>) = ?s2"
    by (simp add: mark_chunk_read_def Let_def)
  have m3: "mark_chunk_read (?s2\<lparr>total_chunks := 3\<rparr>) = ?s3"
    by (simp add: mark_chunk_read_def Let_def)
  have m4: "mark_chunk_read (?s3\<lparr>total_chunks := 3\<rparr>) = ?s3"
    by (simp add: mark_chunk_read_def Let_def)
  from update_of_get[OF assms, of 3] m1 obtain f1 where
    u1: "update_book_progress f b 3 = Inr (f1, ?s1)" by auto
  from update_of_get[OF get_after_update[OF u1], of 3] m2 obtain f2 where
    u2: "update_book_progress f1 b 3 = Inr (f2, ?s2)" by auto
  from update_of_get[OF get_after_update[OF u2], of 3] m3 obtain f3 where
    u3: "update_book_progress f2 b 3 = Inr (f3, ?s3)" by auto
  from update_of_get[OF get_after_update[OF u3], of 3] m4 obtain f4 where
    u4: "update_book_progress f3 b 3 = Inr (f4, ?s3)" by auto
  show ?thesis using u1 u2 u3 u4 by simp
qed

theorem advance_scenario_witness:
  "get_book_progress NoFile ''bookA'' = Inr fresh_progress \<and>
   advance_trace NoFile ''bookA'' [3, 3, 3, 3] =
     Inr [\<lparr>current_chunk = 1, total_chunks = 3, reading_days = 1, completed = False\<rparr>,
          \<lparr>current_chunk = 2, total_chunks = 3, reading_days = 2, completed = False\<rparr>,
          \<lparr>current_chunk = 3, total_chunks = 3, reading_days = 3, completed = True\<rparr>,
          \<lparr>current_chunk = 3, total_chunks = 3, reading_days = 3, completed = True\<rparr>]"
proof -
  have h: "get_book_progress NoFile ''bookA'' = Inr fresh_progress"
    by (simp add: get_book_progress_def load_progress_def empty_entry_def fresh_progress_def)
  from h advance_scenario [OF h] show ?thesis by simp
qed

text \<open>
  C2, as stated, fails: the total passed to a later call may be smaller than the units
  already read. After the calls with totals 3, 3, 1 on a fresh book the stored record has
  \<open>current_chunk = 2\<close> and \<open>total_chunks = 1\<close>.
\<close>

theorem advance_exceeds_total_counterexample: "advance_trace NoFile ''bookA'' [3, 3, 1] =
     Inr [\<lparr>current_chunk = 1, total_chunks = 3, reading_days = 1, completed = False\<rparr>,
          \<lparr>current_chunk = 2, total_chunks = 3, reading_days = 2, completed = False\<rparr>,
          \<lparr>current_chunk = 2, total_chunks = 1, reading_days = 2, completed = False\<rparr>]"
  by (simp add: update_book_progress_def get_book_progress_def load_progress_def empty_entry_def mark_chunk_read_def Let_def)

text \<open>
  C2, amended. Every run of \<open>update_book_progress\<close> calls on a readable book
  returns; \<open>current_chunk\<close> never decreases from call to call and each snapshot
  carries the total just passed. After a call, \<open>current_chunk \<le> total_chunks\<close>
  holds exactly when the \<open>current_chunk\<close> stored before the call is at most the
  total passed to it.
\<close>

theorem advance_monotone_bounded:
  assumes "get_book_progress f b = Inr bp0"
  shows "\<exists>bps. advance_trace f b ns = Inr bps \<and> length bps = length ns
          \<and> map total_chunks bps = ns
          \<and> sorted (map current_chunk (bp0 # bps))
          \<and> (\<forall>i<length ns. current_chunk (bps ! i) \<le> total_chunks (bps ! i)
                \<longleftrightarrow> current_chunk ((bp0 # bps) ! i) \<le> ns ! i)"
  using advance_trace_props [OF assms] .

theorem advance_monotone_bounded_witness:
  "get_book_progress NoFile ''bookA'' = Inr fresh_progress \<and>
   (\<exists>bps. advance_trace NoFile ''bookA'' [5, 3] = Inr bps
      \<and> map current_chunk bps = [1, 2] \<and> map total_chunks bps = [5, 3]
      \<and> sorted (map current_chunk (fresh_progress # bps))
      \<and> current_chunk (bps ! 0) \<le> total_chunks (bps ! 0)
      \<and> current_chunk (bps ! 1) \<le> total_chunks (bps ! 1))"
proof -
  have h: "get_book_progress NoFile ''bookA'' = Inr fresh_progress"
    by (simp add: get_book_progress_def load_progress_def empty_entry_def fresh_progress_def)
  from advance_monotone_bounded [OF h, of "[5, 3]"] obtain bps where
    t: "advance_trace NoFile ''bookA'' [5, 3] = Inr bps"
    and tot: "map total_chunks bps = [5, 3]"
    and s: "sorted (map current_chunk (fresh_progress # bps))"
    and r: "\<forall>i<length [5, 3 :: int]. current_chunk (bps ! i) \<le> total_chunks (bps ! i)
                \<longleftrightarrow> current_chunk ((fresh_progress # bps) ! i) \<le> [5, 3] ! i"
    by (elim exE conjE)
  have e: "advance_trace NoFile ''bookA'' [5, 3] =
     Inr [\<lparr>current_chunk = 1, total_chunks = 5, reading_days = 1, completed = False\<rparr>,
          \<lparr>current_chunk = 2, total_chunks = 3, reading_days = 2, completed = False\<rparr>]"
    by (simp add: progress_eval)
  from t e have c: "map current_chunk bps = [1, 2]" by auto
  from r have r0: "current_chunk (bps ! 0) \<le> total_chunks (bps ! 0)
                \<longleftrightarrow> current_chunk ((fresh_progress # bps) ! 0) \<le> [5, 3] ! 0"
    by simp
  from r have r1: "current_chunk (bps ! 1) \<le> total_chunks (bps ! 1)
                \<longleftrightarrow> current_chunk ((fresh_progress # bps) ! 1) \<le> [5, 3] ! 1"
    by simp
  from r0 have b0: "current_chunk (bps ! 0) \<le> total_chunks (bps ! 0)"
    by (simp add: fresh_progress_def)
  from c have "current_chunk (bps ! 0) = 1" by auto
  with r1 have b1: "current_chunk (bps ! 1) \<le> total_chunks (bps ! 1)" by simp
  from h t c tot s b0 b1 show ?thesis by (intro conjI exI[of _ bps]) assumption+
qed

text \<open>
  C3, as stated, fails: \<open>completed\<close> is only ever set, by the call that reaches
  the total. After one advance with total 1 and a \<open>set_book_total_chunks\<close> to 2 the
  record is completed with \<open>current_chunk = 1 < total_chunks = 2\<close>.
\<close>

theorem completed_inv_counterexample: "state_after NoFile ''bookA'' [Advance 1, SetTotalUnits 2] =
     Inr \<lparr>current_chunk = 1, total_chunks = 2, reading_days = 1, completed = True\<rparr>
   \<and> \<not> completed_inv \<lparr>current_chunk = 1, total_chunks = 2, reading_days = 1, completed = True\<rparr>"
  by (simp add: state_after_def set_book_total_chunks_def update_book_progress_def get_book_progress_def load_progress_def empty_entry_def mark_chunk_read_def Let_def completed_inv_def)

text \<open>
  C3, amended. Every run of advance and setTotalUnits operations on a readable book
  returns, and the record stored after an operation satisfies the invariant exactly when
  the operation is not one of these, relative to the record stored before it: a positive
  total raised above the units read on a completed book (for an advance: above the units
  read plus one), or a positive total at most the units read on a book not completed.
\<close>

theorem completed_inv_exact:
  assumes "get_book_progress f b = Inr bp0"
  shows "\<exists>bps. op_trace f b xs = Inr bps \<and> length bps = length xs
          \<and> (\<forall>i<length xs. completed_inv (bps ! i)
                \<longleftrightarrow> \<not> breaks_inv ((bp0 # bps) ! i) (xs ! i))"
  using op_trace_props [OF assms] .

theorem completed_inv_exact_witness:
  "get_book_progress NoFile ''bookA'' = Inr fresh_progress \<and>
   (\<exists>bps. op_trace NoFile ''bookA'' [SetTotalUnits 3, Advance 3, SetTotalUnits 5, Advance 5] = Inr bps
      \<and> map current_chunk bps = [0, 1, 1, 2] \<and> map total_chunks bps = [3, 3, 5, 5]
      \<and> completed_inv (bps ! 0) \<and> completed_inv (bps ! 1)
      \<and> completed_inv (bps ! 2) \<and> completed_inv (bps ! 3))"
proof -
  let ?ops = "[SetTotalUnits 3, Advance 3, SetTotalUnits 5, Advance 5]"
  have h: "get_book_progress NoFile ''bookA'' = Inr fresh_progress"
    by (simp add: get_book_progress_def load_progress_def empty_entry_def fresh_progress_def)
  from completed_inv_exact [OF h, of ?ops] obtain bps where
    t: "op_trace NoFile ''bookA'' ?ops = Inr bps"
    and r: "\<forall>i<length ?ops. completed_inv (bps ! i)
                \<longleftrightarrow> \<not> breaks_inv ((fresh_progress # bps) ! i) (?ops ! i)"
    by (elim exE conjE)
  have e: "op_trace NoFile ''bookA'' ?ops =
     Inr [\<lparr>current_chunk = 0, total_chunks = 3, reading_days = 0, completed = False\<rparr>,
          \<lparr>current_chunk = 1, total_chunks = 3, reading_days = 1, completed = False\<rparr>,
          \<lparr>current_chunk = 1, total_chunks = 5, reading_days = 1, completed = False\<rparr>,
          \<lparr>current_chunk = 2, total_chunks = 5, reading_days = 2, completed = False\<rparr>]"
    by (simp add: progress_eval)
  from t e have v: "bps =
         [\<lparr>current_chunk = 0, total_chunks = 3, reading_days = 0, completed = False\<rparr>,
          \<lparr>current_chunk = 1, total_chunks = 3, reading_days = 1, completed = False\<rparr>,
          \<lparr>current_chunk = 1, total_chunks = 5, reading_days = 1, completed = False\<rparr>,
          \<lparr>current_chunk = 2, total_chunks = 5, reading_days = 2, completed = False\<rparr>]"
    by simp
  from r have r0: "completed_inv (bps ! 0) \<longleftrightarrow> \<not> breaks_inv ((fresh_progress # bps) ! 0) (?ops ! 0)"
    by simp
  from r have r1: "completed_inv (bps ! 1) \<longleftrightarrow> \<not> breaks_inv ((fresh_progress # bps) ! 1) (?ops ! 1)"
    by simp
  from r have r2: "completed_inv (bps ! 2) \<longleftrightarrow> \<not> breaks_inv ((fresh_progress # bps) ! 2) (?ops ! 2)"
    by simp
  from r have r3: "completed_inv (bps ! 3) \<longleftrightarrow> \<not> breaks_inv ((fresh_progress # bps) ! 3) (?ops ! 3)"
    by simp
  have i0: "completed_inv (bps ! 0)" unfolding r0 by (simp add: fresh_progress_def)
  have i1: "completed_inv (bps ! 1)" unfolding r1 by (simp add: v)
  have i2: "completed_inv (bps ! 2)" unfolding r2 by (simp add: v)
  have i3: "completed_inv (bps ! 3)" unfolding r3 by (simp add: v)
  have c: "map current_chunk bps = [0, 1, 1, 2]" by (simp add: v)
  have tt: "map total_chunks bps = [3, 3, 5, 5]" by (simp add: v)
  from h t c tt i0 i1 i2 i3 show ?thesis by (intro conjI exI[of _ bps]) assumption+
qed

text \<open>
  C9, as stated, fails: \<open>progress_percentage\<close> does not clamp. With
  \<open>current_chunk = 2\<close> and \<open>total_chunks = 1\<close> it is 200.0.
\<close>

theorem progress_percentage_counterexample:
  "progress_percentage \<lparr>current_chunk = 2, total_chunks = 1, reading_days = 2, completed = False\<rparr>
     = Inr (Fin 200)"
  by (simp add: progress_percentage_def true_div_def round_double_2 round_double_200)

text \<open>
  C9, amended. For non-negative \<open>current_chunk\<close> and \<open>total_chunks\<close>,
  \<open>progress_percentage\<close> raises OverflowError (the quotient is too large for a float),
  or is infinite, or is a finite float that is not negative. It is a float that is at
  most 100 exactly when \<open>total_chunks = 0\<close> or the quotient rounds to at most 1.0, that
  is \<open>current_chunk * 2\<^sup>5\<^sup>3 \<le> total_chunks * (2\<^sup>5\<^sup>3 + 1)\<close>; so whenever
  \<open>current_chunk \<le> total_chunks\<close>.
\<close>

theorem progress_percentage_range:
  assumes "0 \<le> current_chunk bp" "0 \<le> total_chunks bp"
  shows "(progress_percentage bp = Inl OverflowError \<or> progress_percentage bp = Inr PInf
           \<or> (\<exists>p. progress_percentage bp = Inr (Fin p) \<and> 0 \<le> p))
       \<and> ((\<exists>p. progress_percentage bp = Inr (Fin p) \<and> p \<le> 100)
            \<longleftrightarrow> (total_chunks bp = 0
                 \<or> current_chunk bp * 2 ^ 53 \<le> total_chunks bp * (2 ^ 53 + 1)))"
  using assms by (rule progress_percentage_cases)

theorem progress_percentage_range_witness:
  "(\<exists>p. progress_percentage \<lparr>current_chunk = 1, total_chunks = 4, reading_days = 1, completed = False\<rparr>
          = Inr (Fin p) \<and> p \<le> 100)
   \<and> (\<exists>p. progress_percentage \<lparr>current_chunk = 2 ^ 53 + 1, total_chunks = 2 ^ 53,
                                     reading_days = 1, completed = True\<rparr>
          = Inr (Fin p) \<and> p \<le> 100)"
proof -
  let ?a = "\<lparr>current_chunk = 1, total_chunks = 4, reading_days = 1, completed = False\<rparr>"
  let ?b = "\<lparr>current_chunk = 2 ^ 53 + 1, total_chunks = 2 ^ 53, reading_days = 1, completed = True\<rparr>"
  have a1: "0 \<le> current_chunk ?a" and a2: "0 \<le> total_chunks ?a" by simp_all
  have a3: "total_chunks ?a = 0 \<or> current_chunk ?a * 2 ^ 53 \<le> total_chunks ?a * (2 ^ 53 + 1)"
    by simp
  have b1: "0 \<le> current_chunk ?b" and b2: "0 \<le> total_chunks ?b" by simp_all
  have b3: "total_chunks ?b = 0 \<or> current_chunk ?b * 2 ^ 53 \<le> total_chunks ?b * (2 ^ 53 + 1)"
    by simp
  from progress_percentage_range [OF a1 a2] a3
  have a: "\<exists>p. progress_percentage ?a = Inr (Fin p) \<and> p \<le> 100" by (elim conjE) (rule iffD2)
  from progress_percentage_range [OF b1 b2] b3
  have b: "\<exists>p. progress_percentage ?b = Inr (Fin p) \<and> p \<le> 100" by (elim conjE) (rule iffD2)
  from a b show ?thesis by (rule conjI)
qed

section \<open>Strings: helper lemmas\<close>

lemma strip_empty_iff: "strip s = [] \<longleftrightarrow> (\<forall>c\<in>set s. is_space c)"
proof
  assume "strip s = []"
  then have a: "\<forall>c\<in>set (dropWhile is_space s). is_space c"
    by (simp add: strip_def)
  have "dropWhile is_space s = []"
  proof (rule ccontr)
    assume ne: "dropWhile is_space s \<noteq> []"
    then have "hd (dropWhile is_space s) \<in> set (dropWhile is_space s)" by simp
    with a have "is_space (hd (dropWhile is_space s))" by blast
    with hd_dropWhile[OF ne] show False by blast
  qed
  then show "\<forall>c\<in>set s. is_space c" by simp
next
  assume "\<forall>c\<in>set s. is_space c"
  then show "strip s = []" by (auto simp: strip_def dest: set_dropWhileD)
qed

lemma strip_decomp:
  "\<exists>a b. s = a @ strip s @ b \<and> (\<forall>c\<in>set a. is_space c) \<and> (\<forall>c\<in>set b. is_space c)"
proof -
  let ?t = "dropWhile is_space s"
  have 1: "s = takeWhile is_space s @ ?t" by simp
  have 2: "rev ?t = takeWhile is_space (rev ?t) @ dropWhile is_space (rev ?t)" by simp
  have "?t = rev (rev ?t)" by simp
  also have "\<dots> = rev (takeWhile is_space (rev ?t) @ dropWhile is_space (rev ?t))"
    using 2 by simp
  also have "\<dots> = strip s @ rev (takeWhile is_space (rev ?t))"
    by (simp only: rev_append strip_def)
  finally have 3: "?t = strip s @ rev (takeWhile is_space (rev ?t))" .
  have 4: "s = takeWhile is_space s @ strip s @ rev (takeWhile is_space (rev ?t))"
    using 1 3 by metis
  have 5: "\<forall>c\<in>set (takeWhile is_space s). is_space c"
    by (auto dest: set_takeWhileD)
  have 6: "\<forall>c\<in>set (rev (takeWhile is_space (rev ?t))). is_space c"
    by (auto dest: set_takeWhileD)
  from 4 5 6 show ?thesis by blast
qed

lemma strip_ends:
  assumes "strip s \<noteq> []"
  shows "\<not> is_space (hd (strip s))" "\<not> is_space (last (strip s))"
proof -
  let ?t = "dropWhile is_space s"
  let ?u = "dropWhile is_space (rev ?t)"
  have u: "?u \<noteq> []" using assms by (simp add: strip_def)
  have t: "?t \<noteq> []"
  proof
    assume e: "?t = []"
    have "?u = []" unfolding e by simp
    with u show False by simp
  qed
  have "\<not> is_space (hd ?u)" using hd_dropWhile[OF u] .
  then show "\<not> is_space (last (strip s))"
    using u by (simp add: strip_def last_rev)
  have nt: "\<not> is_space (hd ?t)" using hd_dropWhile[OF t] .
  have "rev ?t = takeWhile is_space (rev ?t) @ ?u" by simp
  then have "last (rev ?t) = last ?u" using u by (metis last_appendR)
  then have "last ?u = hd ?t" using t by (simp add: last_rev)
  then have "hd (strip s) = hd ?t" using u by (simp add: strip_def hd_rev)
  with nt show "\<not> is_space (hd (strip s))" by simp
qed

lemma strip_id:
  assumes "s = [] \<or> (\<not> is_space (hd s) \<and> \<not> is_space (last s))"
  shows "strip s = s"
proof (cases "s = []")
  case True
  then show ?thesis by (simp add: strip_def)
next
  case False
  with assms have h: "\<not> is_space (hd s)" and l: "\<not> is_space (last s)" by auto
  have 1: "dropWhile is_space s = s" using h by (simp add: dropWhile_eq_self_iff)
  have "hd (rev s) = last s" using False by (simp add: hd_rev)
  then have 2: "dropWhile is_space (rev s) = rev s" using l by (simp add: dropWhile_eq_self_iff)
  show ?thesis by (simp add: strip_def 1 2)
qed

lemma strip_idem: "strip (strip s) = strip s"
  using strip_ends[of s] strip_id[of "strip s"] by blast

lemma strip_sublist: "sublist (strip s) s"
proof -
  from strip_decomp[of s] obtain a b where "s = a @ strip s @ b" by blast
  then show ?thesis by (metis sublist_appendI)
qed

lemma strip_set: "set (strip s) \<subseteq> set s"
  using strip_sublist[of s] by (rule set_mono_sublist)

subsection \<open>Counting words\<close>

lemma split_ws_from_length:
  "length (split_ws_from cur s) = nwords (cur \<noteq> []) s + (if cur \<noteq> [] then 1 else 0)"
  by (induction s arbitrary: cur) simp_all

lemma split_ws_from_words:
  assumes "\<forall>c\<in>set cur. \<not> is_space c"
  shows "\<forall>w\<in>set (split_ws_from cur s). w \<noteq> [] \<and> (\<forall>c\<in>set w. \<not> is_space c)"
  using assms
proof (induction s arbitrary: cur)
  case Nil
  then show ?case by simp
next
  case (Cons c cs)
  show ?case
  proof (cases "is_space c")
    case True
    have "\<forall>w\<in>set (split_ws_from [] cs). w \<noteq> [] \<and> (\<forall>c\<in>set w. \<not> is_space c)"
      using Cons.IH[of "[]"] by simp
    with True Cons.prems show ?thesis by simp
  next
    case False
    with Cons.prems have "\<forall>d\<in>set (cur @ [c]). \<not> is_space d" by simp
    from Cons.IH[OF this] False show ?thesis by simp
  qed
qed

lemma nwords_all_space: "\<forall>c\<in>set s. is_space c \<Longrightarrow> nwords b s = 0"
  by (induction s arbitrary: b) simp_all

lemma nwords_zero: "nwords False s = 0 \<Longrightarrow> \<forall>c\<in>set s. is_space c"
  by (induction s) (simp_all split: if_splits)

lemma nwords_append:
  "nwords b (xs @ ys) = nwords b xs + nwords (if xs = [] then b else \<not> is_space (last xs)) ys"
  by (induction xs arbitrary: b) simp_all

lemma nwords_space_prefix: "\<forall>c\<in>set a. is_space c \<Longrightarrow> nwords False (a @ s) = nwords False s"
  by (induction a) simp_all

lemma nwords_space_suffix: "\<forall>c\<in>set b. is_space c \<Longrightarrow> nwords i (s @ b) = nwords i s"
  by (simp add: nwords_append nwords_all_space)

lemma nwords_strip: "nwords False (strip s) = nwords False s"
proof -
  from strip_decomp[of s] obtain a b where
    s: "s = a @ strip s @ b" and a: "\<forall>c\<in>set a. is_space c" and b: "\<forall>c\<in>set b. is_space c"
    by blast
  have "nwords False s = nwords False (a @ (strip s @ b))" using s by simp
  also have "\<dots> = nwords False (strip s @ b)" using a by (rule nwords_space_prefix)
  also have "\<dots> = nwords False (strip s)" using b by (rule nwords_space_suffix)
  finally show ?thesis by simp
qed

lemma count_words_nwords: "count_words s = int (nwords False s)"
proof (cases "strip s = []")
  case True
  then have "\<forall>c\<in>set s. is_space c" by (simp add: strip_empty_iff)
  then have "nwords False s = 0" by (rule nwords_all_space)
  with True show ?thesis by (simp add: count_words_def)
next
  case False
  have w: "\<forall>w\<in>set (split_ws_from [] s). w \<noteq> [] \<and> (\<forall>c\<in>set w. \<not> is_space c)"
    using split_ws_from_words[of "[]" s] by simp
  have "\<forall>w\<in>set (split_ws s). strip w \<noteq> []"
  proof
    fix w assume "w \<in> set (split_ws s)"
    with w have "w \<noteq> []" "\<forall>c\<in>set w. \<not> is_space c" by (simp_all add: split_ws_def)
    then have "\<not> (\<forall>c\<in>set w. is_space c)" by (cases w) auto
    then show "strip w \<noteq> []" by (simp add: strip_empty_iff)
  qed
  then have "filter (\<lambda>word. strip word \<noteq> []) (split_ws s) = split_ws s" by simp
  with False show ?thesis
    by (simp add: count_words_def split_ws_def split_ws_from_length)
qed

lemma count_words_pos:
  assumes "strip p \<noteq> []"
  shows "1 \<le> count_words p"
proof -
  have "nwords False p \<noteq> 0"
  proof
    assume "nwords False p = 0"
    then have "\<forall>c\<in>set p. is_space c" by (rule nwords_zero)
    with assms show False by (simp add: strip_empty_iff)
  qed
  then show ?thesis by (simp add: count_words_nwords)
qed

lemma count_words_nonneg: "0 \<le> count_words p"
  by (simp add: count_words_nwords)

lemma count_words_strip: "count_words (strip s) = count_words s"
  by (simp add: count_words_nwords nwords_strip)

subsection \<open>Splitting at a separator\<close>

lemma split_str_Nil: "sep \<noteq> [] \<Longrightarrow> split_str sep [] = [[]]"
  by (simp add: split_str.simps)

lemma split_str_prefix:
  assumes "sep \<noteq> []" "prefix sep s"
  shows "split_str sep s = [] # split_str sep (drop (length sep) s)"
proof (cases s)
  case Nil
  with assms show ?thesis by simp
next
  case (Cons c cs)
  with assms have "find_str sep s = Some 0" by simp
  with assms(1) show ?thesis by (subst split_str.simps) simp
qed

lemma split_str_Cons:
  assumes "sep \<noteq> []" "\<not> prefix sep (c # cs)"
  shows "split_str sep (c # cs) = (c # hd (split_str sep cs)) # tl (split_str sep cs)"
proof (cases "find_str sep cs")
  case None
  with assms have "find_str sep (c # cs) = None" by simp
  with assms(1) None show ?thesis by (simp add: split_str.simps[of sep "c # cs"] split_str.simps[of sep cs])
next
  case (Some i)
  with assms have "find_str sep (c # cs) = Some (Suc i)" by simp
  with assms(1) Some show ?thesis
    by (simp add: split_str.simps[of sep "c # cs"] split_str.simps[of sep cs])
qed

lemma split_str_not_Nil: "split_str sep s \<noteq> []"
  by (subst split_str.simps) (simp split: option.splits)

lemma join_Cons: "ys \<noteq> [] \<Longrightarrow> join sep (x # ys) = x @ sep @ join sep ys"
  by (cases ys) simp_all

lemma join_Cons_hd: "ys \<noteq> [] \<Longrightarrow> join sep ((c # hd ys) # tl ys) = c # join sep ys"
proof (cases ys)
  case Nil
  then show "ys \<noteq> [] \<Longrightarrow> ?thesis" by simp
next
  case (Cons h t)
  then show ?thesis by (cases t) simp_all
qed

lemma join_split_str:
  assumes "sep \<noteq> []"
  shows "join sep (split_str sep s) = s"
proof (induction s rule: length_induct)
  case (1 s)
  show ?case
  proof (cases "prefix sep s")
    case True
    then obtain r where s: "s = sep @ r" by (auto simp: prefix_def)
    have "length r < length s" using s assms by simp
    with 1 have ih: "join sep (split_str sep r) = r" by blast
    have "split_str sep s = [] # split_str sep r"
      using split_str_prefix[OF assms True] s by simp
    then show ?thesis using ih s by (simp add: join_Cons split_str_not_Nil)
  next
    case False
    show ?thesis
    proof (cases s)
      case Nil
      with assms show ?thesis by (simp add: split_str_Nil)
    next
      case (Cons c cs)
      then have "length cs < length s" by simp
      with 1 have ih: "join sep (split_str sep cs) = cs" by blast
      from False Cons have "split_str sep s = (c # hd (split_str sep cs)) # tl (split_str sep cs)"
        using split_str_Cons[OF assms] by simp
      then show ?thesis using ih Cons by (simp add: join_Cons_hd split_str_not_Nil)
    qed
  qed
qed

lemma split_str_hd_prefix:
  assumes "sep \<noteq> []"
  shows "prefix (hd (split_str sep s)) s"
proof (induction s)
  case Nil
  with assms show ?case by (simp add: split_str_Nil)
next
  case (Cons c cs)
  show ?case
  proof (cases "prefix sep (c # cs)")
    case True
    then show ?thesis using split_str_prefix[OF assms True] by simp
  next
    case False
    then show ?thesis using split_str_Cons[OF assms False] Cons.IH by simp
  qed
qed

lemma split_str_pieces:
  assumes "sep \<noteq> []"
  shows "\<forall>p\<in>set (split_str sep s). \<not> sublist sep p"
proof (induction s rule: length_induct)
  case (1 s)
  show ?case
  proof (cases "prefix sep s")
    case True
    then obtain r where s: "s = sep @ r" by (auto simp: prefix_def)
    have "length r < length s" using s assms by simp
    with 1 have ih: "\<forall>p\<in>set (split_str sep r). \<not> sublist sep p" by blast
    have "split_str sep s = [] # split_str sep r"
      using split_str_prefix[OF assms True] s by simp
    then show ?thesis using ih assms by simp
  next
    case False
    show ?thesis
    proof (cases s)
      case Nil
      with assms show ?thesis by (simp add: split_str_Nil)
    next
      case (Cons c cs)
      then have "length cs < length s" by simp
      with 1 have ih: "\<forall>p\<in>set (split_str sep cs). \<not> sublist sep p" by blast
      let ?h = "hd (split_str sep cs)"
      have e: "split_str sep s = (c # ?h) # tl (split_str sep cs)"
        using False Cons split_str_Cons[OF assms] by simp
      have hin: "?h \<in> set (split_str sep cs)" by (simp add: split_str_not_Nil)
      have np: "\<not> prefix sep (c # ?h)"
      proof
        assume "prefix sep (c # ?h)"
        moreover have "prefix (c # ?h) (c # cs)" using split_str_hd_prefix[OF assms] by simp
        ultimately have "prefix sep (c # cs)" by (rule prefix_order.trans)
        with False Cons show False by simp
      qed
      have "\<not> sublist sep (c # ?h)" using np ih hin by (simp add: sublist_Cons_right)
      moreover have "\<forall>p\<in>set (tl (split_str sep cs)). \<not> sublist sep p"
        using ih by (meson list.set_sel(2) split_str_not_Nil)
      ultimately show ?thesis using e by simp
    qed
  qed
qed

lemma split_str_pieces_set:
  assumes "sep \<noteq> []" "p \<in> set (split_str sep s)"
  shows "set p \<subseteq> set s"
proof -
  have "\<And>ps. p \<in> set ps \<Longrightarrow> set p \<subseteq> set (join sep ps)"
  proof -
    fix ps show "p \<in> set ps \<Longrightarrow> set p \<subseteq> set (join sep ps)"
      by (induction sep ps rule: join.induct) auto
  qed
  from this[OF assms(2)] show ?thesis by (simp add: join_split_str[OF assms(1)])
qed

lemma find_str_None:
  assumes "sep \<noteq> []" "\<not> sublist sep s"
  shows "find_str sep s = None"
  using assms(2)
proof (induction s)
  case Nil
  with assms(1) show ?case by simp
next
  case (Cons c cs)
  then have "\<not> prefix sep (c # cs)" "\<not> sublist sep cs" by (simp_all add: sublist_Cons_right)
  with Cons.IH show ?case by simp
qed

lemma split_str_single:
  assumes "sep \<noteq> []" "\<not> sublist sep s"
  shows "split_str sep s = [s]"
  using find_str_None[OF assms] assms(1) by (simp add: split_str.simps)

subsection \<open>Paragraphs\<close>


lemma no_nn_snoc:
  assumes "\<not> sublist [10, 10] p" "p \<noteq> []" "last p \<noteq> (10::nat)"
  shows "\<not> sublist [10, 10] (p @ [10])"
  using assms
proof (induction p)
  case Nil
  then show ?case by simp
next
  case (Cons c cs)
  show ?case
  proof (cases cs)
    case Nil
    with Cons.prems show ?thesis by (simp add: sublist_Cons_right)
  next
    case (Cons d ds)
    with Cons.prems have a: "\<not> prefix [10, 10] (c # cs)" "\<not> sublist [10, 10] cs" "last cs \<noteq> 10"
      by (simp_all add: sublist_Cons_right)
    have "\<not> sublist [10, 10] (cs @ [10])" using Cons.IH a Cons by simp
    moreover have "\<not> prefix [10, 10] (c # cs @ [10])" using a(1) Cons by simp
    ultimately show ?thesis by (simp add: sublist_Cons_right)
  qed
qed

lemma split_str_para:
  assumes "\<not> sublist [10, 10] (p @ [10::nat])"
  shows "split_str [10, 10] (p @ [10, 10] @ rest) = p # split_str [10, 10] rest"
  using assms
proof (induction p)
  case Nil
  have "prefix [10, 10::nat] ([10, 10] @ rest)" by simp
  from split_str_prefix[OF _ this] show ?case by simp
next
  case (Cons c cs)
  then have a: "\<not> prefix [10, 10] (c # cs @ [10])" "\<not> sublist [10, 10] (cs @ [10])"
    by (simp_all add: sublist_Cons_right)
  have np: "\<not> prefix [10, 10] (c # cs @ [10, 10] @ rest)"
    using a(1) by (cases cs) simp_all
  have "split_str [10, 10] ((c # cs) @ [10, 10] @ rest) =
          (c # hd (split_str [10, 10] (cs @ [10, 10] @ rest))) # tl (split_str [10, 10] (cs @ [10, 10] @ rest))"
    using split_str_Cons[OF _ np] by simp
  then show ?case using Cons.IH[OF a(2)] by simp
qed

lemma split_str_join_paras:
  assumes "ps \<noteq> []" "\<forall>p\<in>set ps. para_ok p"
  shows "split_str [10, 10] (join [10, 10] ps) = ps"
  using assms
proof (induction ps)
  case Nil
  then show ?case by simp
next
  case (Cons p ps)
  from Cons.prems have ok: "\<not> sublist [10, 10] (p @ [10])" by (simp add: para_ok_def)
  show ?case
  proof (cases "ps = []")
    case True
    have "\<not> sublist [10, 10] p"
    proof
      assume "sublist [10, 10] p"
      moreover have "sublist p (p @ [10])" by simp
      ultimately have "sublist [10, 10] (p @ [10])" by (rule sublist_order.order.trans)
      with ok show False by simp
    qed
    from split_str_single[OF _ this] True show ?thesis by simp
  next
    case False
    with Cons have ih: "split_str [10, 10] (join [10, 10] ps) = ps" by simp
    have "join [10, 10] (p # ps) = p @ [10, 10] @ join [10, 10] ps"
      using False by (rule join_Cons)
    then show ?thesis using split_str_para[OF ok, of "join [10, 10] ps"] ih by simp
  qed
qed

lemma paragraphs_of_join:
  assumes "ps \<noteq> []" "\<forall>p\<in>set ps. para_ok p"
  shows "paragraphs_of (join [10, 10] ps) = ps"
proof -
  have 1: "map strip ps = ps" using assms(2) by (simp add: para_ok_def map_idI)
  have 2: "filter (\<lambda>p. p \<noteq> []) ps = ps" using assms(2) by (simp add: para_ok_def)
  show ?thesis by (simp add: paragraphs_of_def split_str_join_paras[OF assms] 1 2)
qed

lemma paragraphs_of_ok: "\<forall>p\<in>set (paragraphs_of text). para_ok p"
proof
  fix p assume "p \<in> set (paragraphs_of text)"
  then obtain q where q: "q \<in> set (split_str [10, 10] text)" and p: "p = strip q" and ne: "p \<noteq> []"
    by (auto simp: paragraphs_of_def)
  have nq: "\<not> sublist [10, 10] q" using split_str_pieces[of "[10, 10]" "text"] q by simp
  have np: "\<not> sublist [10, 10] p"
  proof
    assume "sublist [10, 10] p"
    moreover have "sublist p q" unfolding p by (rule strip_sublist)
    ultimately have "sublist [10, 10] q" by (rule sublist_order.order.trans)
    with nq show False by simp
  qed
  have "\<not> is_space (last p)" using strip_ends(2)[of q] ne p by simp
  then have "last p \<noteq> 10" by (auto simp: is_space_def)
  from no_nn_snoc[OF np ne this] have "\<not> sublist [10, 10] (p @ [10])" .
  moreover have "strip p = p" unfolding p by (rule strip_idem)
  ultimately show "para_ok p" using ne by (simp add: para_ok_def)
qed

lemma paragraphs_of_Nil: "paragraphs_of [] = []"
  by (simp add: paragraphs_of_def split_str_Nil strip_def)

lemma paragraphs_of_blank:
  assumes "strip text = []"
  shows "paragraphs_of text = []"
proof -
  have "\<forall>q\<in>set (split_str [10, 10] text). strip q = []"
  proof
    fix q assume "q \<in> set (split_str [10, 10] text)"
    then have "set q \<subseteq> set text" using split_str_pieces_set[of "[10, 10]"] by simp
    with assms show "strip q = []" by (auto simp: strip_empty_iff)
  qed
  then show ?thesis by (simp add: paragraphs_of_def filter_empty_conv)
qed

lemma para_ok_words: "para_ok p \<Longrightarrow> 1 \<le> count_words p"
  using count_words_pos[of p] by (simp add: para_ok_def)

lemma nwords_join:
  "nwords False (join [10, 10] ps) = sum_list (map (nwords False) ps)"
proof (induction "[10, 10::nat]" ps rule: join.induct)
  case 1
  then show ?case by simp
next
  case (2 x)
  then show ?case by simp
next
  case (3 x y ys)
  have s: "is_space 10" by (simp add: is_space_def)
  have "nwords False (x @ [10, 10] @ join [10, 10] (y # ys))
          = nwords False x + nwords False (join [10, 10] (y # ys))"
    using s by (simp add: nwords_append)
  with 3 show ?case by simp
qed

lemma count_words_join:
  "count_words (join [10, 10] ps) = sum_list (map count_words ps)"
proof -
  have "sum_list (map count_words ps) = int (sum_list (map (nwords False) ps))"
    by (induction ps) (simp_all add: count_words_nwords)
  then show ?thesis by (simp add: count_words_nwords nwords_join)
qed

lemma count_words_skip_blank:
  "sum_list (map count_words qs) =
     sum_list (map count_words (filter (\<lambda>p. p \<noteq> []) (map strip qs)))"
proof (induction qs)
  case Nil
  then show ?case by simp
next
  case (Cons q qs)
  have "strip q = [] \<Longrightarrow> count_words q = 0" by (simp add: count_words_def)
  with Cons show ?case by (auto simp: count_words_strip)
qed

lemma count_words_paragraphs:
  "count_words text = sum_list (map count_words (paragraphs_of text))"
proof -
  let ?qs = "split_str [10, 10] text"
  have "count_words text = count_words (join [10, 10] ?qs)" by (simp add: join_split_str)
  also have "\<dots> = sum_list (map count_words ?qs)" by (rule count_words_join)
  also have "\<dots> = sum_list (map count_words (filter (\<lambda>p. p \<noteq> []) (map strip ?qs)))"
    by (rule count_words_skip_blank)
  finally show ?thesis by (simp add: paragraphs_of_def)
qed

section \<open>Chunking: helper lemmas\<close>

lemma group_loop_concat: "concat (group_loop tw ps cur cwc) = cur @ ps"
  by (induction ps arbitrary: cur cwc) simp_all

lemma group_loop_nonempty: "[] \<notin> set (group_loop tw ps cur cwc)"
  by (induction ps arbitrary: cur cwc) auto

lemma group_loop_budget:
  assumes "cwc = sum_list (map count_words cur)" "length cur \<le> 1 \<or> cwc \<le> tw"
  shows "\<forall>g\<in>set (group_loop tw ps cur cwc). length g = 1 \<or> sum_list (map count_words g) \<le> tw"
  using assms
proof (induction ps arbitrary: cur cwc)
  case Nil
  then show ?case by (cases cur) auto
next
  case (Cons p ps)
  show ?case
  proof (cases "cwc + count_words p > tw \<and> cur \<noteq> []")
    case True
    have c: "length cur = 1 \<or> sum_list (map count_words cur) \<le> tw"
      using Cons.prems True by (cases cur) auto
    have "\<forall>g\<in>set (group_loop tw ps [p] (count_words p)).
            length g = 1 \<or> sum_list (map count_words g) \<le> tw"
      by (rule Cons.IH) simp_all
    with c True show ?thesis by simp
  next
    case False
    have "\<forall>g\<in>set (group_loop tw ps (cur @ [p]) (cwc + count_words p)).
            length g = 1 \<or> sum_list (map count_words g) \<le> tw"
    proof (rule Cons.IH)
      show "cwc + count_words p = sum_list (map count_words (cur @ [p]))"
        using Cons.prems(1) by simp
      show "length (cur @ [p]) \<le> 1 \<or> cwc + count_words p \<le> tw"
        using False by auto
    qed
    with False show ?thesis by auto
  qed
qed

lemma mk_chunks_length: "length (mk_chunks wpm n gs) = length gs"
  by (induction gs arbitrary: n) simp_all

lemma mk_chunks_index: "map index (mk_chunks wpm n gs) = map int [n..<n + length gs]"
proof (induction gs arbitrary: n)
  case Nil
  then show ?case by simp
next
  case (Cons g gs)
  have "[n..<n + length (g # gs)] = n # [Suc n..<Suc n + length gs]"
    by (subst upt_rec) simp
  with Cons[of "Suc n"] show ?case by simp
qed

lemma mk_chunks_content: "map content (mk_chunks wpm n gs) = map (join [10, 10]) gs"
  by (induction gs arbitrary: n) simp_all

lemma mk_chunks_word_count:
  "map word_count (mk_chunks wpm n gs) = map (\<lambda>g. count_words (join [10, 10] g)) gs"
  by (induction gs arbitrary: n) simp_all

lemma mk_chunks_snoc:
  "mk_chunks wpm n (gs @ [g]) = mk_chunks wpm n gs @ mk_chunks wpm (n + length gs) [g]"
  by (induction gs arbitrary: n) simp_all

lemma create_chunk_Inr:
  assumes "create_chunk wpm (int n) (join [10, 10] g) = Inr c"
  shows "[c] = mk_chunks wpm n [g]"
  using assms by (auto simp: create_chunk_def reading_time_of_def Let_def split: sum.splits)

lemma chunk_loop_groups:
  assumes "chunk_loop tw wpm ps chunks cur cwc = Inr cs"
  shows "cs = chunks @ mk_chunks wpm (length chunks)
                 (group_loop tw (filter (\<lambda>p. p \<noteq> []) (map strip ps)) cur cwc)"
  using assms
proof (induction ps arbitrary: chunks cur cwc)
  case Nil
  show ?case
  proof (cases "cur = []")
    case True
    with Nil show ?thesis by simp
  next
    case False
    with Nil obtain c where c: "create_chunk wpm (int (length chunks)) (join [10, 10] cur) = Inr c"
      and cs: "cs = chunks @ [c]"
      by (auto split: sum.splits)
    from create_chunk_Inr[OF c] cs False show ?thesis by simp
  qed
next
  case (Cons p ps)
  show ?case
  proof (cases "strip p = []")
    case True
    with Cons.prems have "chunk_loop tw wpm ps chunks cur cwc = Inr cs" by simp
    from Cons.IH[OF this] True show ?thesis by simp
  next
    case False
    show ?thesis
    proof (cases "cwc + count_words (strip p) > tw \<and> cur \<noteq> []")
      case True
      with False Cons.prems obtain c where
        c: "create_chunk wpm (int (length chunks)) (join [10, 10] cur) = Inr c"
        and r: "chunk_loop tw wpm ps (chunks @ [c]) [strip p] (count_words (strip p)) = Inr cs"
        by (auto simp: Let_def split: sum.splits)
      from Cons.IH[OF r] have
        "cs = (chunks @ [c]) @ mk_chunks wpm (Suc (length chunks))
                (group_loop tw (filter (\<lambda>p. p \<noteq> []) (map strip ps)) [strip p] (count_words (strip p)))"
        by simp
      with create_chunk_Inr[OF c] True False show ?thesis by simp
    next
      case nc: False
      with False Cons.prems have
        "chunk_loop tw wpm ps chunks (cur @ [strip p]) (cwc + count_words (strip p)) = Inr cs"
        by (auto simp: Let_def)
      from Cons.IH[OF this] nc False show ?thesis by auto
    qed
  qed
qed

lemma chunk_text_groups:
  assumes "chunk_text trt wpm text = Inr cs"
  shows "\<exists>tw. (strip text = [] \<or> (\<exists>pr. py_mul trt wpm = Inr pr \<and> py_int pr = Inr tw))
            \<and> cs = mk_chunks wpm 0 (group_loop tw (paragraphs_of text) [] 0)"
proof (cases "strip text = []")
  case True
  with assms have "cs = []" by (simp add: chunk_text_def)
  with paragraphs_of_blank[OF True] True show ?thesis by simp
next
  case False
  with assms obtain pr tw where p: "py_mul trt wpm = Inr pr" "py_int pr = Inr tw"
    and l: "chunk_loop tw wpm (split_str [10, 10] text) [] [] 0 = Inr cs"
    by (auto simp: chunk_text_def split: sum.splits)
  from chunk_loop_groups[OF l] have "cs = mk_chunks wpm 0 (group_loop tw (paragraphs_of text) [] 0)"
    by (simp add: paragraphs_of_def)
  with p show ?thesis by blast
qed

lemma py_int_floor:
  assumes "py_int pr = Inr tw"
  shows "\<exists>F. py_floor pr = Some F \<and> F \<le> tw \<and> (F = tw \<or> tw \<le> 0)"
proof (cases pr)
  case (PyInt a)
  with assms show ?thesis by simp
next
  case (PyFloat f)
  show ?thesis
  proof (cases f)
    case (Fin x)
    show ?thesis
    proof (cases "0 \<le> x")
      case True
      with assms PyFloat Fin show ?thesis by simp
    next
      case False
      then have c: "\<lceil>x\<rceil> \<le> 0" by (simp add: ceiling_le_zero)
      have fc: "\<lfloor>x\<rfloor> \<le> \<lceil>x\<rceil>" by (rule floor_le_ceiling)
      from False assms PyFloat Fin have tw: "tw = \<lceil>x\<rceil>" by simp
      from PyFloat Fin have "py_floor pr = Some \<lfloor>x\<rfloor>" by simp
      with c fc tw show ?thesis by simp
    qed
  next
    case PInf
    with assms PyFloat show ?thesis by simp
  next
    case NInf
    with assms PyFloat show ?thesis by simp
  next
    case NaN
    with assms PyFloat show ?thesis by simp
  qed
qed

lemma text_groups_props:
  fixes s :: ustr and tw :: int
  defines "gs \<equiv> group_loop tw (paragraphs_of s) [] 0"
  shows "concat gs = paragraphs_of s"
    and "\<forall>g\<in>set gs. g \<noteq> [] \<and> (\<forall>p\<in>set g. para_ok p)"
    and "\<forall>g\<in>set gs. length g = 1 \<or> sum_list (map count_words g) \<le> tw"
proof -
  show c: "concat gs = paragraphs_of s" by (simp add: gs_def group_loop_concat)
  show "\<forall>g\<in>set gs. g \<noteq> [] \<and> (\<forall>p\<in>set g. para_ok p)"
  proof
    fix g assume g: "g \<in> set gs"
    have "g \<noteq> []" using g group_loop_nonempty[of tw "paragraphs_of s" "[]" 0]
      unfolding gs_def by auto
    moreover have "set g \<subseteq> set (concat gs)" using g by auto
    ultimately show "g \<noteq> [] \<and> (\<forall>p\<in>set g. para_ok p)"
      using paragraphs_of_ok[of s] c by auto
  qed
  show "\<forall>g\<in>set gs. length g = 1 \<or> sum_list (map count_words g) \<le> tw"
    unfolding gs_def by (rule group_loop_budget) simp_all
qed

lemma sum_count_words_nat:
  "sum_list (map count_words g) = int (sum_list (map (nwords False) g))"
  by (induction g) (simp_all add: count_words_nwords)

lemma para_group_sum:
  assumes "\<forall>p\<in>set g. para_ok p"
  shows "int (length g) \<le> sum_list (map count_words g)"
  using assms
proof (induction g)
  case Nil
  then show ?case by simp
next
  case (Cons p g)
  then have "1 \<le> count_words p" "int (length g) \<le> sum_list (map count_words g)"
    by (simp_all add: para_ok_words)
  then show ?case by simp
qed

lemma member_count_le_sum:
  assumes "p \<in> set g"
  shows "count_words p \<le> sum_list (map count_words g)"
proof -
  have "nwords False p \<in> set (map (nwords False) g)" using assms by simp
  then have "nwords False p \<le> sum_list (map (nwords False) g)"
    by (intro member_le_sum_list) simp_all
  then show ?thesis by (simp add: sum_count_words_nat count_words_nwords)
qed

lemma group_floor_budget:
  assumes g: "g \<noteq> []" "\<forall>p\<in>set g. para_ok p"
    and b: "length g = 1 \<or> sum_list (map count_words g) \<le> tw"
    and f: "F \<le> tw" "F = tw \<or> tw \<le> 0"
  shows "sum_list (map count_words g) \<le> F \<or> (\<exists>p. g = [p] \<and> F < count_words p)"
    and "\<forall>p\<in>set g. F < count_words p \<longrightarrow> g = [p]"
proof -
  show "sum_list (map count_words g) \<le> F \<or> (\<exists>p. g = [p] \<and> F < count_words p)"
  proof (cases "length g = 1")
    case True
    then obtain p where "g = [p]" by (cases g) auto
    then show ?thesis by auto
  next
    case False
    with b have s: "sum_list (map count_words g) \<le> tw" by simp
    from g(1) have "1 \<le> length g" by (cases g) auto
    with para_group_sum[OF g(2)] have "1 \<le> sum_list (map count_words g)" by linarith
    with s f show ?thesis by linarith
  qed
  show "\<forall>p\<in>set g. F < count_words p \<longrightarrow> g = [p]"
  proof (intro ballI impI)
    fix p assume p: "p \<in> set g" and o: "F < count_words p"
    show "g = [p]"
    proof (cases "length g = 1")
      case True
      then obtain q where "g = [q]" by (cases g) auto
      with p show ?thesis by simp
    next
      case False
      with b have s: "sum_list (map count_words g) \<le> tw" by simp
      from g(1) have "1 \<le> length g" by (cases g) auto
      with para_group_sum[OF g(2)] have "1 \<le> sum_list (map count_words g)" by linarith
      with s f have "F = tw" by linarith
      with member_count_le_sum[OF p] s o show ?thesis by linarith
    qed
  qed
qed

lemma join_append:
  "xs \<noteq> [] \<Longrightarrow> ys \<noteq> [] \<Longrightarrow> join sep (xs @ ys) = join sep xs @ sep @ join sep ys"
proof (induction sep xs rule: join.induct)
  case (1 sep)
  then show ?case by simp
next
  case (2 sep x)
  then show ?case by (simp add: join_Cons)
next
  case (3 sep x y ys)
  then show ?case by simp
qed

lemma join_concat:
  assumes "[] \<notin> set gs"
  shows "join sep (map (join sep) gs) = join sep (concat gs)"
  using assms
proof (induction gs)
  case Nil
  then show ?case by simp
next
  case (Cons g gs)
  show ?case
  proof (cases "gs = []")
    case True
    then show ?thesis by simp
  next
    case False
    with Cons.prems have ne: "concat gs \<noteq> []" "g \<noteq> []" by (cases gs; auto)+
    have "join sep (map (join sep) (g # gs)) = join sep g @ sep @ join sep (map (join sep) gs)"
      using False by (simp add: join_Cons)
    also have "\<dots> = join sep g @ sep @ join sep (concat gs)" using Cons by simp
    also have "\<dots> = join sep (g @ concat gs)" using ne by (simp add: join_append)
    finally show ?thesis by simp
  qed
qed

lemma mk_chunks_member:
  assumes "c \<in> set (mk_chunks wpm n gs)"
  shows "\<exists>g\<in>set gs. content c = join [10, 10] g \<and> word_count c = count_words (join [10, 10] g)"
  using assms by (induction gs arbitrary: n) auto

lemma sum_words_groups:
  "sum_list (map (\<lambda>g. count_words (join [10, 10] g)) gs) = sum_list (map count_words (concat gs))"
  by (induction gs) (simp_all add: count_words_join)

lemma concat_groups_paragraphs:
  assumes "\<forall>g\<in>set gs. g \<noteq> [] \<and> (\<forall>p\<in>set g. para_ok p)"
  shows "concat (map (\<lambda>g. paragraphs_of (join [10, 10] g)) gs) = concat gs"
  using assms by (induction gs) (simp_all add: paragraphs_of_join)

subsection \<open>Evaluation\<close>

lemma round_double_1: "round_double 1 = Some 1"
  using round_double_exact[of "2 ^ 52" 0] by (simp add: power_int_minus)

lemma round_double_3: "round_double 3 = Some 3"
  using round_double_exact[of "3 * 2 ^ 51" 1] by (simp add: power_int_minus)

lemma round_double_half: "round_double (1 / 2) = Some (1 / 2)"
  using round_double_exact[of "2 ^ 52" "- 1"] by (simp add: power_int_minus)

lemma round_double_3_2: "round_double (3 / 2) = Some (3 / 2)"
  using round_double_exact[of "3 * 2 ^ 51" 0] by (simp add: power_int_minus)

lemmas text_eval = py_def strip_def is_space_def split_str.simps count_words_def split_ws_def
  create_chunk_def chunk_text_def paragraphs_of_def py_mul_def int_to_float_def true_div_def
  round_double_1 round_double_2 round_double_3 round_double_half round_double_3_2 Let_def

lemma example_paragraphs:
  "paragraphs_of (py ''aa bb\<newline>\<newline>cc\<newline>\<newline>\<newline> dd ee  ff \<newline>'') = [py ''aa bb'', py ''cc'', py ''dd ee  ff'']"
  by (simp add: text_eval)

lemma example_chunks:
  "chunk_text (PyInt 1) 2 (py ''aa bb\<newline>\<newline>cc\<newline>\<newline>\<newline> dd ee  ff \<newline>'') =
     Inr [\<lparr>index = 0, content = py ''aa bb'', word_count = 2, estimated_reading_time = Fin 1\<rparr>,
          \<lparr>index = 1, content = py ''cc'', word_count = 1, estimated_reading_time = Fin (1 / 2)\<rparr>,
          \<lparr>index = 2, content = py ''dd ee  ff'', word_count = 3, estimated_reading_time = Fin (3 / 2)\<rparr>]"
  by (simp add: text_eval)

lemma example_chunks_float:
  "chunk_text (PyFloat (Fin (3 / 2))) 2 (py ''aa bb\<newline>\<newline>cc\<newline>\<newline>\<newline> dd ee  ff \<newline>'') =
     Inr [\<lparr>index = 0, content = py ''aa bb\<newline>\<newline>cc'', word_count = 3, estimated_reading_time = Fin (3 / 2)\<rparr>,
          \<lparr>index = 1, content = py ''dd ee  ff'', word_count = 3, estimated_reading_time = Fin (3 / 2)\<rparr>]"
  by (simp add: text_eval)

subsection \<open>What \<open>chunk_text\<close> returns\<close>

lemma mk_chunks_content_map:
  "map (\<lambda>c. f (content c)) (mk_chunks wpm n gs) = map (\<lambda>g. f (join [10, 10] g)) gs"
  by (induction gs arbitrary: n) simp_all

lemma chunk_text_structure:
  assumes "chunk_text trt wpm s = Inr cs"
  shows "\<exists>gs tw. cs = mk_chunks wpm 0 gs \<and> concat gs = paragraphs_of s
            \<and> (\<forall>g\<in>set gs. g \<noteq> [] \<and> (\<forall>p\<in>set g. para_ok p))
            \<and> (\<forall>g\<in>set gs. length g = 1 \<or> sum_list (map count_words g) \<le> tw)
            \<and> (strip s = [] \<or> (\<exists>pr. py_mul trt wpm = Inr pr \<and> py_int pr = Inr tw))"
proof -
  from chunk_text_groups[OF assms] obtain tw where
    t: "strip s = [] \<or> (\<exists>pr. py_mul trt wpm = Inr pr \<and> py_int pr = Inr tw)"
    and cs: "cs = mk_chunks wpm 0 (group_loop tw (paragraphs_of s) [] 0)" by blast
  from text_groups_props[of tw s] t cs show ?thesis by blast
qed

lemma chunk_text_indices:
  assumes "chunk_text trt wpm s = Inr cs"
  shows "map index cs = map int [0..<length cs]"
proof -
  from chunk_text_structure[OF assms] obtain gs where cs: "cs = mk_chunks wpm 0 gs" by blast
  show ?thesis unfolding cs using mk_chunks_index[of wpm 0 gs] by (simp add: mk_chunks_length)
qed

lemma chunk_text_words:
  assumes "chunk_text trt wpm s = Inr cs"
  shows "count_words s = sum_list (map word_count cs)"
proof -
  from chunk_text_structure[OF assms] obtain gs where
    cs: "cs = mk_chunks wpm 0 gs" and c: "concat gs = paragraphs_of s" by blast
  have "sum_list (map word_count cs) = sum_list (map count_words (concat gs))"
    unfolding cs by (simp add: mk_chunks_word_count sum_words_groups)
  then show ?thesis using c by (simp add: count_words_paragraphs)
qed

lemma chunk_text_nonempty:
  assumes "chunk_text trt wpm s = Inr cs" "c \<in> set cs"
  shows "content c \<noteq> [] \<and> paragraphs_of (content c) \<noteq> [] \<and> 1 \<le> word_count c"
proof -
  from chunk_text_structure[OF assms(1)] obtain gs where
    cs: "cs = mk_chunks wpm 0 gs"
    and ok: "\<forall>g\<in>set gs. g \<noteq> [] \<and> (\<forall>p\<in>set g. para_ok p)" by blast
  from mk_chunks_member[of c wpm 0 gs] assms(2) cs obtain g where
    g: "g \<in> set gs" and ct: "content c = join [10, 10] g"
    and wc: "word_count c = count_words (join [10, 10] g)" by blast
  from ok g have ne: "g \<noteq> []" and pk: "\<forall>p\<in>set g. para_ok p" by auto
  have p: "paragraphs_of (content c) = g" unfolding ct by (rule paragraphs_of_join[OF ne pk])
  have "content c \<noteq> []"
  proof
    assume "content c = []"
    with p have "g = []" by (simp add: paragraphs_of_Nil)
    with ne show False by simp
  qed
  moreover have "1 \<le> word_count c"
  proof -
    from ne have "1 \<le> int (length g)" by (cases g) auto
    with para_group_sum[OF pk] show ?thesis unfolding wc count_words_join by linarith
  qed
  ultimately show ?thesis using p ne by simp
qed

lemma chunk_text_coverage:
  assumes "chunk_text trt wpm s = Inr cs"
  shows "paragraphs_of (join [10, 10] (map content cs)) = paragraphs_of s"
    and "cs \<noteq> [] \<longrightarrow> map strip (split_str [10, 10] (join [10, 10] (map content cs))) = paragraphs_of s"
proof -
  from chunk_text_structure[OF assms] obtain gs where
    cs: "cs = mk_chunks wpm 0 gs" and c: "concat gs = paragraphs_of s"
    and ok: "\<forall>g\<in>set gs. g \<noteq> [] \<and> (\<forall>p\<in>set g. para_ok p)" by blast
  have ne: "[] \<notin> set gs" using ok by blast
  have j: "join [10, 10] (map content cs) = join [10, 10] (paragraphs_of s)"
    unfolding cs mk_chunks_content using join_concat[OF ne] c by simp
  have pk: "\<forall>p\<in>set (paragraphs_of s). para_ok p" by (rule paragraphs_of_ok)
  show "paragraphs_of (join [10, 10] (map content cs)) = paragraphs_of s"
  proof (cases "paragraphs_of s = []")
    case True
    then show ?thesis unfolding j by (simp add: paragraphs_of_Nil)
  next
    case False
    then show ?thesis unfolding j by (rule paragraphs_of_join[OF _ pk])
  qed
  show "cs \<noteq> [] \<longrightarrow> map strip (split_str [10, 10] (join [10, 10] (map content cs))) = paragraphs_of s"
  proof
    assume "cs \<noteq> []"
    then have "gs \<noteq> []" unfolding cs by auto
    with ne have "concat gs \<noteq> []" by (cases gs) auto
    with c have n: "paragraphs_of s \<noteq> []" by simp
    have "map strip (paragraphs_of s) = paragraphs_of s"
      using pk by (simp add: para_ok_def map_idI)
    then show "map strip (split_str [10, 10] (join [10, 10] (map content cs))) = paragraphs_of s"
      unfolding j by (simp add: split_str_join_paras[OF n pk])
  qed
qed

lemma chunk_text_units:
  assumes "chunk_text trt wpm s = Inr cs"
  shows "concat (map (\<lambda>c. paragraphs_of (content c)) cs) = paragraphs_of s"
proof -
  from chunk_text_structure[OF assms] obtain gs where
    cs: "cs = mk_chunks wpm 0 gs" and c: "concat gs = paragraphs_of s"
    and ok: "\<forall>g\<in>set gs. g \<noteq> [] \<and> (\<forall>p\<in>set g. para_ok p)" by blast
  have "map (\<lambda>c. paragraphs_of (content c)) cs = map (\<lambda>g. paragraphs_of (join [10, 10] g)) gs"
    unfolding cs by (rule mk_chunks_content_map)
  then show ?thesis using concat_groups_paragraphs[OF ok] c by simp
qed

lemma chunk_text_budget:
  assumes "chunk_text trt wpm s = Inr cs" "cs \<noteq> []"
  shows "\<exists>pr F. py_mul trt wpm = Inr pr \<and> py_floor pr = Some F
          \<and> (\<forall>c\<in>set cs. word_count c \<le> F
                \<or> (paragraphs_of (content c) = [content c] \<and> F < count_words (content c)))
          \<and> (\<forall>c\<in>set cs. \<forall>p\<in>set (paragraphs_of (content c)).
                F < count_words p \<longrightarrow> content c = p)"
proof -
  from chunk_text_structure[OF assms(1)] obtain gs tw where
    cs: "cs = mk_chunks wpm 0 gs" and c: "concat gs = paragraphs_of s"
    and ok: "\<forall>g\<in>set gs. g \<noteq> [] \<and> (\<forall>p\<in>set g. para_ok p)"
    and bd: "\<forall>g\<in>set gs. length g = 1 \<or> sum_list (map count_words g) \<le> tw"
    and t: "strip s = [] \<or> (\<exists>pr. py_mul trt wpm = Inr pr \<and> py_int pr = Inr tw)" by blast
  have "strip s \<noteq> []"
  proof
    assume "strip s = []"
    with assms(1) have "cs = []" by (simp add: chunk_text_def)
    with assms(2) show False by simp
  qed
  with t obtain pr where m: "py_mul trt wpm = Inr pr" and i: "py_int pr = Inr tw" by blast
  from py_int_floor[OF i] obtain F where
    F: "py_floor pr = Some F" and f: "F \<le> tw" "F = tw \<or> tw \<le> 0" by blast
  have unit: "\<exists>g\<in>set gs. content c = join [10, 10] g \<and> word_count c = sum_list (map count_words g)
                \<and> paragraphs_of (content c) = g" if "c \<in> set cs" for c
  proof -
    from mk_chunks_member[of c wpm 0 gs] that cs obtain g where
      g: "g \<in> set gs" and ct: "content c = join [10, 10] g"
      and wc: "word_count c = count_words (join [10, 10] g)" by blast
    from ok g have "paragraphs_of (join [10, 10] g) = g" by (simp add: paragraphs_of_join)
    with g ct wc show ?thesis by (auto simp: count_words_join)
  qed
  have b1: "\<forall>c\<in>set cs. word_count c \<le> F
            \<or> (paragraphs_of (content c) = [content c] \<and> F < count_words (content c))"
  proof
    fix c assume "c \<in> set cs"
    from unit[OF this] obtain g where g: "g \<in> set gs" and ct: "content c = join [10, 10] g"
      and wc: "word_count c = sum_list (map count_words g)" and pg: "paragraphs_of (content c) = g"
      by blast
    from ok bd g have "g \<noteq> []" "\<forall>p\<in>set g. para_ok p"
      "length g = 1 \<or> sum_list (map count_words g) \<le> tw" by auto
    from group_floor_budget(1)[OF this f]
    have "sum_list (map count_words g) \<le> F \<or> (\<exists>p. g = [p] \<and> F < count_words p)" .
    then show "word_count c \<le> F
            \<or> (paragraphs_of (content c) = [content c] \<and> F < count_words (content c))"
    proof
      assume "sum_list (map count_words g) \<le> F"
      with wc show ?thesis by simp
    next
      assume "\<exists>p. g = [p] \<and> F < count_words p"
      then obtain p where "g = [p]" "F < count_words p" by blast
      with ct pg show ?thesis by simp
    qed
  qed
  have b2: "\<forall>c\<in>set cs. \<forall>p\<in>set (paragraphs_of (content c)). F < count_words p \<longrightarrow> content c = p"
  proof (intro ballI impI)
    fix c p assume "c \<in> set cs" and p: "p \<in> set (paragraphs_of (content c))" and o: "F < count_words p"
    from unit[OF this(1)] obtain g where g: "g \<in> set gs" and ct: "content c = join [10, 10] g"
      and pg: "paragraphs_of (content c) = g" by blast
    from ok bd g have "g \<noteq> []" "\<forall>p\<in>set g. para_ok p"
      "length g = 1 \<or> sum_list (map count_words g) \<le> tw" by auto
    from group_floor_budget(2)[OF this f] p pg o have "g = [p]" by blast
    with ct show "content c = p" by simp
  qed
  from m F b1 b2 show ?thesis by blast
qed

section \<open>Chunking: the claims\<close>

text \<open>
  C4. Whenever \<open>chunk_text\<close> returns units, the product
  \<open>target_reading_time * words_per_minute\<close> is a finite number and, with \<open>F\<close> its floor:
  every unit has \<open>word_count \<le> F\<close> or consists of a single paragraph with more than
  \<open>F\<close> words; the paragraphs of the units, in order, are the paragraphs of the text; and
  a paragraph with more than \<open>F\<close> words is the whole content of the unit it is in.
  (\<open>int()\<close> truncates toward zero; it differs from the floor for a negative product only,
  where every unit is a single paragraph.)
\<close>

theorem chunk_budget:
  assumes "chunk_text trt wpm s = Inr cs" "cs \<noteq> []"
  shows "\<exists>pr F. py_mul trt wpm = Inr pr \<and> py_floor pr = Some F
          \<and> (\<forall>c\<in>set cs. word_count c \<le> F
                \<or> (paragraphs_of (content c) = [content c] \<and> F < count_words (content c)))
          \<and> concat (map (\<lambda>c. paragraphs_of (content c)) cs) = paragraphs_of s
          \<and> (\<forall>c\<in>set cs. \<forall>p\<in>set (paragraphs_of (content c)).
                F < count_words p \<longrightarrow> content c = p)"
proof -
  from chunk_text_budget[OF assms] obtain pr F where
    "py_mul trt wpm = Inr pr" "py_floor pr = Some F"
    "\<forall>c\<in>set cs. word_count c \<le> F
        \<or> (paragraphs_of (content c) = [content c] \<and> F < count_words (content c))"
    "\<forall>c\<in>set cs. \<forall>p\<in>set (paragraphs_of (content c)). F < count_words p \<longrightarrow> content c = p"
    by blast
  with chunk_text_units[OF assms(1)] show ?thesis by blast
qed

theorem chunk_budget_witness:
  "\<exists>cs. chunk_text (PyInt 1) 2 (py ''aa bb\<newline>\<newline>cc\<newline>\<newline>\<newline> dd ee  ff \<newline>'') = Inr cs
      \<and> map word_count cs = [2, 1, 3]
      \<and> (\<forall>c\<in>set cs. word_count c \<le> 2
            \<or> (paragraphs_of (content c) = [content c] \<and> 2 < count_words (content c)))
      \<and> concat (map (\<lambda>c. paragraphs_of (content c)) cs)
          = paragraphs_of (py ''aa bb\<newline>\<newline>cc\<newline>\<newline>\<newline> dd ee  ff \<newline>'')"
proof -
  let ?s = "py ''aa bb\<newline>\<newline>cc\<newline>\<newline>\<newline> dd ee  ff \<newline>''"
  define cs where "cs =
         [\<lparr>index = 0, content = py ''aa bb'', word_count = 2, estimated_reading_time = Fin 1\<rparr>,
          \<lparr>index = 1, content = py ''cc'', word_count = 1, estimated_reading_time = Fin (1 / 2)\<rparr>,
          \<lparr>index = 2, content = py ''dd ee  ff'', word_count = 3, estimated_reading_time = Fin (3 / 2)\<rparr>]"
  have e: "chunk_text (PyInt 1) 2 ?s = Inr cs" unfolding cs_def by (rule example_chunks)
  have ne: "cs \<noteq> []" by (simp add: cs_def)
  from chunk_budget [OF e ne] obtain pr F where
    m: "py_mul (PyInt 1) 2 = Inr pr" and f: "py_floor pr = Some F"
    and b: "\<forall>c\<in>set cs. word_count c \<le> F
        \<or> (paragraphs_of (content c) = [content c] \<and> F < count_words (content c))"
    and c: "concat (map (\<lambda>c. paragraphs_of (content c)) cs) = paragraphs_of ?s"
    by (elim exE conjE)
  from m have "pr = PyInt 2" by (simp add: py_mul_def)
  with f have F: "F = 2" by simp
  have w: "map word_count cs = [2, 1, 3]" by (simp add: cs_def)
  show ?thesis
    by (intro exI[of _ cs] conjI) (rule e w c b[unfolded F])+
qed

text \<open>
  C5. Whenever \<open>chunk_text\<close> returns, the non-empty stripped paragraphs of the unit
  contents joined by \<open>'\n\n'\<close> are the non-empty stripped paragraphs of the text, in the
  same order; when there is a unit, no piece of the joined contents is empty.
\<close>

theorem chunk_coverage:
  assumes "chunk_text trt wpm s = Inr cs"
  shows "paragraphs_of (join [10, 10] (map content cs)) = paragraphs_of s
      \<and> (cs \<noteq> [] \<longrightarrow>
            map strip (split_str [10, 10] (join [10, 10] (map content cs))) = paragraphs_of s)"
  using chunk_text_coverage[OF assms] by (rule conjI)

theorem chunk_coverage_witness:
  "\<exists>cs. chunk_text (PyFloat (Fin (3 / 2))) 2 (py ''aa bb\<newline>\<newline>cc\<newline>\<newline>\<newline> dd ee  ff \<newline>'') = Inr cs
      \<and> map content cs = [py ''aa bb\<newline>\<newline>cc'', py ''dd ee  ff'']
      \<and> paragraphs_of (join [10, 10] (map content cs)) = [py ''aa bb'', py ''cc'', py ''dd ee  ff'']
      \<and> map strip (split_str [10, 10] (join [10, 10] (map content cs)))
          = [py ''aa bb'', py ''cc'', py ''dd ee  ff'']"
proof -
  let ?s = "py ''aa bb\<newline>\<newline>cc\<newline>\<newline>\<newline> dd ee  ff \<newline>''"
  define cs where "cs =
         [\<lparr>index = 0, content = py ''aa bb\<newline>\<newline>cc'', word_count = 3, estimated_reading_time = Fin (3 / 2)\<rparr>,
          \<lparr>index = 1, content = py ''dd ee  ff'', word_count = 3, estimated_reading_time = Fin (3 / 2)\<rparr>]"
  have e: "chunk_text (PyFloat (Fin (3 / 2))) 2 ?s = Inr cs"
    unfolding cs_def by (rule example_chunks_float)
  have ne: "cs \<noteq> []" by (simp add: cs_def)
  have p: "paragraphs_of ?s = [py ''aa bb'', py ''cc'', py ''dd ee  ff'']" by (rule example_paragraphs)
  have a: "paragraphs_of (join [10, 10] (map content cs)) = paragraphs_of ?s"
    using chunk_coverage [OF e] by (rule conjunct1)
  have b: "cs \<noteq> [] \<longrightarrow>
            map strip (split_str [10, 10] (join [10, 10] (map content cs))) = paragraphs_of ?s"
    using chunk_coverage [OF e] by (rule conjunct2)
  from b ne have b': "map strip (split_str [10, 10] (join [10, 10] (map content cs))) = paragraphs_of ?s"
    by (rule mp)
  have m: "map content cs = [py ''aa bb\<newline>\<newline>cc'', py ''dd ee  ff'']" by (simp add: cs_def)
  show ?thesis
    by (intro exI[of _ cs] conjI) (rule e m a[unfolded p] b'[unfolded p])+
qed

text \<open>
  C6. Whenever \<open>chunk_text\<close> returns \<open>n\<close> units, their \<open>index\<close> fields are
  \<open>0, 1, \<dots>, n - 1\<close> in list order.
\<close>

theorem chunk_indices:
  "chunk_text trt wpm s = Inr cs \<Longrightarrow> map index cs = map int [0..<length cs]"
  by (rule chunk_text_indices)

theorem chunk_indices_witness:
  "\<exists>cs. chunk_text (PyInt 1) 2 (py ''aa bb\<newline>\<newline>cc\<newline>\<newline>\<newline> dd ee  ff \<newline>'') = Inr cs
      \<and> length cs = 3 \<and> map index cs = [0, 1, 2]"
proof -
  let ?s = "py ''aa bb\<newline>\<newline>cc\<newline>\<newline>\<newline> dd ee  ff \<newline>''"
  define cs where "cs =
         [\<lparr>index = 0, content = py ''aa bb'', word_count = 2, estimated_reading_time = Fin 1\<rparr>,
          \<lparr>index = 1, content = py ''cc'', word_count = 1, estimated_reading_time = Fin (1 / 2)\<rparr>,
          \<lparr>index = 2, content = py ''dd ee  ff'', word_count = 3, estimated_reading_time = Fin (3 / 2)\<rparr>]"
  have e: "chunk_text (PyInt 1) 2 ?s = Inr cs" unfolding cs_def by (rule example_chunks)
  have l: "length cs = 3" by (simp add: cs_def)
  have u: "map int [0..<3] = [0, 1, 2]" by (simp add: upt_rec)
  from chunk_indices [OF e] have i: "map index cs = [0, 1, 2]" unfolding l u .
  show ?thesis
    by (intro exI[of _ cs] conjI) (rule e l i)+
qed

text \<open>
  C8. Whenever \<open>chunk_text\<close> returns, the word count of the whole text, which
  \<open>process_book_command\<close> stores as \<open>total_words\<close>, is the sum of the \<open>word_count\<close>
  fields of the units.
\<close>

theorem total_words_sum:
  "chunk_text trt wpm s = Inr cs \<Longrightarrow> count_words s = sum_list (map word_count cs)"
  by (rule chunk_text_words)

theorem total_words_sum_witness:
  "\<exists>cs. chunk_text (PyInt 1) 2 (py ''aa bb\<newline>\<newline>cc\<newline>\<newline>\<newline> dd ee  ff \<newline>'') = Inr cs
      \<and> sum_list (map word_count cs) = 6
      \<and> count_words (py ''aa bb\<newline>\<newline>cc\<newline>\<newline>\<newline> dd ee  ff \<newline>'') = 6"
proof -
  let ?s = "py ''aa bb\<newline>\<newline>cc\<newline>\<newline>\<newline> dd ee  ff \<newline>''"
  define cs where "cs =
         [\<lparr>index = 0, content = py ''aa bb'', word_count = 2, estimated_reading_time = Fin 1\<rparr>,
          \<lparr>index = 1, content = py ''cc'', word_count = 1, estimated_reading_time = Fin (1 / 2)\<rparr>,
          \<lparr>index = 2, content = py ''dd ee  ff'', word_count = 3, estimated_reading_time = Fin (3 / 2)\<rparr>]"
  have e: "chunk_text (PyInt 1) 2 ?s = Inr cs" unfolding cs_def by (rule example_chunks)
  have t: "sum_list (map word_count cs) = 6" by (simp add: cs_def)
  from total_words_sum [OF e] have c: "count_words ?s = 6" unfolding t .
  show ?thesis
    by (intro exI[of _ cs] conjI) (rule e t c)+
qed

text \<open>
  C10. Every unit \<open>chunk_text\<close> returns has a non-empty content that holds at least
  one non-empty paragraph, and \<open>word_count \<ge> 1\<close>.
\<close>

theorem chunks_not_empty:
  assumes "chunk_text trt wpm s = Inr cs"
  shows "\<forall>c\<in>set cs. content c \<noteq> [] \<and> paragraphs_of (content c) \<noteq> [] \<and> 1 \<le> word_count c"
  using chunk_text_nonempty[OF assms] by blast

theorem chunks_not_empty_witness:
  "\<exists>cs. chunk_text (PyInt 1) 2 (py ''aa bb\<newline>\<newline>cc\<newline>\<newline>\<newline> dd ee  ff \<newline>'') = Inr cs
      \<and> length cs = 3
      \<and> (\<forall>c\<in>set cs. content c \<noteq> [] \<and> paragraphs_of (content c) \<noteq> [] \<and> 1 \<le> word_count c)"
proof -
  let ?s = "py ''aa bb\<newline>\<newline>cc\<newline>\<newline>\<newline> dd ee  ff \<newline>''"
  define cs where "cs =
         [\<lparr>index = 0, content = py ''aa bb'', word_count = 2, estimated_reading_time = Fin 1\<rparr>,
          \<lparr>index = 1, content = py ''cc'', word_count = 1, estimated_reading_time = Fin (1 / 2)\<rparr>,
          \<lparr>index = 2, content = py ''dd ee  ff'', word_count = 3, estimated_reading_time = Fin (3 / 2)\<rparr>]"
  have e: "chunk_text (PyInt 1) 2 ?s = Inr cs" unfolding cs_def by (rule example_chunks)
  have l: "length cs = 3" by (simp add: cs_def)
  from chunks_not_empty [OF e] have n:
    "\<forall>c\<in>set cs. content c \<noteq> [] \<and> paragraphs_of (content c) \<noteq> [] \<and> 1 \<le> word_count c" .
  show ?thesis
    by (intro exI[of _ cs] conjI) (rule e l n)+
qed

end
